theory Spec2Isabelle
  imports Complex_Main "HOL-Library.Finite_Map"
begin

section \<open>Data model\<close>

text \<open>
  The module \<^verbatim>\<open>src/data_processing.py\<close> has three functions:
  \<^verbatim>\<open>read_sentiment_examples\<close>, \<^verbatim>\<open>build_vocab\<close> and \<^verbatim>\<open>bag_of_words\<close>.

  Conventions of the embedding.
  \<^item> A Python \<^verbatim>\<open>str\<close> is a \<^typ>\<open>string\<close>; a \<^typ>\<open>char\<close> stands for one code point of the
    decoded text, so the model covers code points below 256.
  \<^item> A Python \<^verbatim>\<open>int\<close> is an \<^typ>\<open>int\<close>; \<^verbatim>\<open>int(str)\<close> has the interpreter's default limit of
    4300 digits.
  \<^item> A \<^verbatim>\<open>Dict[str, int]\<close> is a finite map \<^typ>\<open>(string, int) fmap\<close>.
  \<^item> The tensor returned by \<^verbatim>\<open>torch.zeros(n)\<close> has \<open>n\<close> entries of type float32. It is a
    list of length \<open>n\<close> of the \<^typ>\<open>real\<close> values of its entries; the program stores only
    integers, and storing one rounds it to the nearest float32.
  \<^item> A Python list and a dictionary have fewer than \<open>2^63\<close> elements, so every occurrence
    count and every number of keys is below \<open>2^63\<close>.
  \<^item> Every exception the code can raise is a value \<open>Inl e\<close> of a result type
    \<open>error + 'a\<close>.
\<close>

datatype error =
  IndexError    \<comment> \<open>\<^verbatim>\<open>xs[1]\<close> on a list of one element; a tensor index out of bounds\<close>
| ValueError    \<comment> \<open>\<^verbatim>\<open>int(s)\<close> on a string it rejects; a tensor index that overflows 64 bits\<close>

text \<open>
  \<^verbatim>\<open>SentimentExample\<close> is imported from \<^verbatim>\<open>utils\<close>; the code builds it from a token list
  and a label and reads its attribute \<^verbatim>\<open>words\<close>.
\<close>

record SentimentExample =
  words :: "string list"
  label :: int

type_synonym vocab = "(string, int) fmap"
type_synonym tensor = "real list"

abbreviation TAB :: char where "TAB \<equiv> CHR 0x09"
abbreviation LF :: char where "LF \<equiv> CHR 0x0A"
abbreviation CR :: char where "CR \<equiv> CHR 0x0D"

section \<open>Python built-ins used by the code\<close>

subsection \<open>Text files: \<^verbatim>\<open>open(infile, "r")\<close> and \<^verbatim>\<open>f.readlines()\<close>\<close>

text \<open>
  A file opened in text mode with the default \<^verbatim>\<open>newline=None\<close> translates the line
  endings \<^verbatim>\<open>\r\n\<close> and \<^verbatim>\<open>\r\<close> to \<^verbatim>\<open>\n\<close>.
\<close>

fun universal_newlines :: "string \<Rightarrow> string" where
  "universal_newlines [] = []"
| "universal_newlines (c # cs) =
     (if c = CR then
        (case cs of
           [] \<Rightarrow> [LF]
         | d # ds \<Rightarrow> if d = LF then LF # universal_newlines ds else LF # universal_newlines cs)
      else c # universal_newlines cs)"

text \<open>
  \<^verbatim>\<open>readlines\<close> cuts the text after every \<^verbatim>\<open>\n\<close> and keeps the \<^verbatim>\<open>\n\<close> at the end of each
  line; text after the last \<^verbatim>\<open>\n\<close>, when there is some, is a last line without one.
\<close>

fun split_keepends :: "string \<Rightarrow> string list" where
  "split_keepends [] = []"
| "split_keepends (c # cs) =
     (if c = LF then [LF] # split_keepends cs
      else (case split_keepends cs of
              [] \<Rightarrow> [[c]]
            | l # ls \<Rightarrow> (c # l) # ls))"

definition readlines :: "string \<Rightarrow> string list" where
  "readlines content = split_keepends (universal_newlines content)"

subsection \<open>\<^verbatim>\<open>str.split(sep)\<close> and list indexing\<close>

text \<open>\<^verbatim>\<open>s.split(sep)\<close> with a one-character separator: always at least one field.\<close>

fun split :: "char \<Rightarrow> string \<Rightarrow> string list" where
  "split sep [] = [[]]"
| "split sep (c # cs) =
     (if c = sep then [] # split sep cs
      else (case split sep cs of
              [] \<Rightarrow> [[c]]
            | f # fs \<Rightarrow> (c # f) # fs))"

text \<open>\<^verbatim>\<open>xs[i]\<close> for a list and a non-negative literal index.\<close>

definition getitem :: "'a list \<Rightarrow> nat \<Rightarrow> error + 'a" where
  "getitem xs i = (if i < length xs then Inr (xs ! i) else Inl IndexError)"

subsection \<open>\<^verbatim>\<open>int(s)\<close>\<close>

text \<open>
  \<^verbatim>\<open>int(s)\<close> in base 10: whitespace around the literal is dropped, then come an optional
  sign and decimal digits, where single underscores may stand between digits. Among the
  code points below 256 the whitespace \<^verbatim>\<open>int\<close> drops is 9 to 13, 32, 133 and 160. A literal
  with more digits than \<^verbatim>\<open>sys.get_int_max_str_digits()\<close>, 4300 by default, is rejected;
  leading zeros count, the sign and the underscores do not.
\<close>

definition int_max_str_digits :: nat where
  "int_max_str_digits = 4300"

definition int_space :: "char \<Rightarrow> bool" where
  "int_space c = ((of_char c :: nat) \<in> {9, 10, 11, 12, 13, 32, 133, 160})"

definition is_digit :: "char \<Rightarrow> bool" where
  "is_digit c = (48 \<le> (of_char c :: nat) \<and> (of_char c :: nat) \<le> 57)"

definition digit_val :: "char \<Rightarrow> int" where
  "digit_val c = int (of_char c) - 48"

definition strip :: "string \<Rightarrow> string" where
  "strip s = rev (dropWhile int_space (rev (dropWhile int_space s)))"

text \<open>
  The digits of the literal, read left to right: \<open>acc\<close> is the value so far and \<open>ld\<close>
  says that the character before was a digit (an underscore is accepted only there,
  and the literal must end in a digit).
\<close>

fun int_digits :: "int \<Rightarrow> bool \<Rightarrow> string \<Rightarrow> int option" where
  "int_digits acc ld [] = (if ld then Some acc else None)"
| "int_digits acc ld (c # cs) =
     (if is_digit c then int_digits (10 * acc + digit_val c) True cs
      else if c = CHR ''_'' \<and> ld then int_digits acc False cs
      else None)"

definition py_int :: "string \<Rightarrow> error + int" where
  "py_int s =
     (case strip s of
        [] \<Rightarrow> Inl ValueError
      | c # cs \<Rightarrow>
          (let body = (if c = CHR ''-'' \<or> c = CHR ''+'' then cs else c # cs) in
           case int_digits 0 False body of
             None \<Rightarrow> Inl ValueError
           | Some n \<Rightarrow>
               if int_max_str_digits < length (filter is_digit body) then Inl ValueError
               else Inr (if c = CHR ''-'' then - n else n)))"

subsection \<open>\<^verbatim>\<open>collections.Counter\<close>\<close>

text \<open>
  A \<^verbatim>\<open>Counter\<close> is a dictionary that keeps its keys in the order of their first
  insertion; \<^verbatim>\<open>items()\<close> lists the pairs in that order. It is modelled by the list of
  its items.
\<close>

fun counter_incr :: "string \<Rightarrow> (string \<times> nat) list \<Rightarrow> (string \<times> nat) list" where
  "counter_incr w [] = [(w, 1)]"
| "counter_incr w ((k, c) # kcs) =
     (if k = w then (k, c + 1) # kcs else (k, c) # counter_incr w kcs)"

definition Counter :: "string list \<Rightarrow> (string \<times> nat) list" where
  "Counter text = foldl (\<lambda>items w. counter_incr w items) [] text"

subsection \<open>Dictionaries and tensors\<close>

definition len_dict :: "('k, 'v) fmap \<Rightarrow> nat" where
  "len_dict d = fcard (fmdom d)"

definition zeros :: "nat \<Rightarrow> tensor" where
  "zeros n = replicate n 0"

text \<open>
  The float32 nearest to a non-negative integer, ties to the even significand: an
  integer below \<open>2^24\<close> is kept, a longer one keeps its 24 leading bits, rounded.
\<close>

fun bit_length :: "nat \<Rightarrow> nat" where
  "bit_length n = (if n = 0 then 0 else Suc (bit_length (n div 2)))"

declare bit_length.simps [simp del]

definition float32_of_nat :: "nat \<Rightarrow> real" where
  "float32_of_nat n =
     (if n < 2 ^ 24 then real n
      else
        (let e = bit_length n - 24;
             q = n div 2 ^ e;
             r = n mod 2 ^ e;
             h = 2 ^ (e - 1)
         in real ((if h < r \<or> (r = h \<and> odd q) then q + 1 else q) * 2 ^ e)))"

text \<open>
  \<^verbatim>\<open>bow[i] = v\<close> for a Python integer \<open>v\<close>, on a float32 tensor of one dimension and size \<open>n\<close>:
  an index from \<open>-n\<close> to \<open>n - 1\<close> is accepted, a negative one counting from the end, and the
  entry becomes the float32 nearest to \<open>v\<close>. Any other index raises: an index error when
  it fits in a signed 64-bit integer, an overflow error (a value error) when it does not.
  The size \<open>n\<close> is below \<open>2^63\<close>, so an accepted index always fits.
\<close>

definition setitem :: "tensor \<Rightarrow> int \<Rightarrow> nat \<Rightarrow> error + tensor" where
  "setitem bow i v =
     (let n = int (length bow) in
      if - n \<le> i \<and> i < n then
        Inr (bow[nat (if i < 0 then i + n else i) := float32_of_nat v])
      else if - (2 ^ 63) \<le> i \<and> i < 2 ^ 63 then Inl IndexError
      else Inl ValueError)"

section \<open>The functions of \<^verbatim>\<open>data_processing.py\<close>\<close>

subsection \<open>\<^verbatim>\<open>read_sentiment_examples\<close>\<close>

text \<open>
  The element expression of the list comprehension, for one line:
  \<^verbatim>\<open>SentimentExample(tokenize(line.split("\t")[0]), int(line.split("\t")[1]))\<close>.
  The arguments are evaluated left to right. \<^verbatim>\<open>tokenize\<close> is imported from \<^verbatim>\<open>utils\<close>
  and is a parameter here.
\<close>

definition parse_line :: "(string \<Rightarrow> string list) \<Rightarrow> string \<Rightarrow> error + SentimentExample" where
  "parse_line tokenize line =
     (case getitem (split TAB line) 0 of
        Inl e \<Rightarrow> Inl e
      | Inr field0 \<Rightarrow>
          (let toks = tokenize field0 in
           case getitem (split TAB line) 1 of
             Inl e \<Rightarrow> Inl e
           | Inr field1 \<Rightarrow>
               (case py_int field1 of
                  Inl e \<Rightarrow> Inl e
                | Inr n \<Rightarrow> Inr \<lparr>words = toks, label = n\<rparr>)))"

text \<open>The list comprehension: the first line that raises ends it, and nothing is returned.\<close>

fun parse_lines :: "(string \<Rightarrow> string list) \<Rightarrow> string list \<Rightarrow> error + SentimentExample list" where
  "parse_lines tokenize [] = Inr []"
| "parse_lines tokenize (line # lines) =
     (case parse_line tokenize line of
        Inl e \<Rightarrow> Inl e
      | Inr ex \<Rightarrow>
          (case parse_lines tokenize lines of
             Inl e \<Rightarrow> Inl e
           | Inr exs \<Rightarrow> Inr (ex # exs)))"

text \<open>The argument \<open>content\<close> is the decoded content of the file at \<^verbatim>\<open>infile\<close>.\<close>

definition read_sentiment_examples ::
  "(string \<Rightarrow> string list) \<Rightarrow> string \<Rightarrow> error + SentimentExample list" where
  "read_sentiment_examples tokenize content = parse_lines tokenize (readlines content)"

subsection \<open>\<^verbatim>\<open>build_vocab\<close>\<close>

text \<open>
  \<^verbatim>\<open>list(set(ws))\<close> lists the distinct elements of \<open>ws\<close> in an order the language does
  not fix. The listing is the parameter \<open>list_set\<close>; \<open>set_listing\<close> says what every
  such listing satisfies.
\<close>

definition set_listing :: "(string list \<Rightarrow> string list) \<Rightarrow> bool" where
  "set_listing list_set \<longleftrightarrow> (\<forall>ws. distinct (list_set ws) \<and> set (list_set ws) = set ws)"

text \<open>A dictionary comprehension stores its pairs one after the other.\<close>

definition dict_of :: "('k \<times> 'v) list \<Rightarrow> ('k, 'v) fmap" where
  "dict_of kvs = foldl (\<lambda>d (k, v). fmupd k v d) fmempty kvs"

definition build_vocab :: "(string list \<Rightarrow> string list) \<Rightarrow> SentimentExample list \<Rightarrow> vocab" where
  "build_vocab list_set examples =
     (let distinct_words = list_set (concat (map words examples)) in
      dict_of (map (\<lambda>(i, word). (word, int i)) (enumerate 0 distinct_words)))"

subsection \<open>\<^verbatim>\<open>bag_of_words\<close>\<close>

fun bow_binary :: "vocab \<Rightarrow> string list \<Rightarrow> tensor \<Rightarrow> error + tensor" where
  "bow_binary vocab [] bow = Inr bow"
| "bow_binary vocab (word # text) bow =
     (case fmlookup vocab word of
        None \<Rightarrow> bow_binary vocab text bow
      | Some i \<Rightarrow>
          (case setitem bow i 1 of
             Inl e \<Rightarrow> Inl e
           | Inr bow' \<Rightarrow> bow_binary vocab text bow'))"

fun bow_count :: "vocab \<Rightarrow> (string \<times> nat) list \<Rightarrow> tensor \<Rightarrow> error + tensor" where
  "bow_count vocab [] bow = Inr bow"
| "bow_count vocab ((word, count) # items) bow =
     (case fmlookup vocab word of
        None \<Rightarrow> bow_count vocab items bow
      | Some i \<Rightarrow>
          (case setitem bow i count of
             Inl e \<Rightarrow> Inl e
           | Inr bow' \<Rightarrow> bow_count vocab items bow'))"

definition bag_of_words :: "string list \<Rightarrow> vocab \<Rightarrow> bool \<Rightarrow> error + tensor" where
  "bag_of_words text vocab binary =
     (let bow = zeros (len_dict vocab) in
      if binary then bow_binary vocab text bow
      else bow_count vocab (Counter text) bow)"

section \<open>Vocabularies\<close>

text \<open>
  The indices of a mapping are valid when each lies in \<open>0..<n\<close> for the number \<open>n\<close> of its
  keys; a vocabulary moreover gives no index to two words.
\<close>

definition valid_indices :: "vocab \<Rightarrow> bool" where
  "valid_indices V \<longleftrightarrow>
     (\<forall>w i. fmlookup V w = Some i \<longrightarrow> 0 \<le> i \<and> i < int (len_dict V))"

definition is_vocabulary :: "vocab \<Rightarrow> bool" where
  "is_vocabulary V \<longleftrightarrow>
     valid_indices V \<and>
     (\<forall>w w' i. fmlookup V w = Some i \<and> fmlookup V w' = Some i \<longrightarrow> w = w')"

text \<open>
  The position that \<^verbatim>\<open>bow[i] = v\<close> writes in a tensor of size \<open>n\<close>, and the words whose
  index makes the loop write position \<open>j\<close>.
\<close>

definition slot :: "nat \<Rightarrow> int \<Rightarrow> nat" where
  "slot n i = nat (if i < 0 then i + int n else i)"

definition writes :: "vocab \<Rightarrow> nat \<Rightarrow> string \<Rightarrow> nat \<Rightarrow> bool" where
  "writes V n w j \<longleftrightarrow> (\<exists>i. fmlookup V w = Some i \<and> slot n i = j)"

text \<open>The words that occur in the token lists of the examples.\<close>

definition corpus_words :: "SentimentExample list \<Rightarrow> string set" where
  "corpus_words examples = (\<Union>ex \<in> set examples. set (words ex))"

text \<open>
  Every token of \<open>T\<close> that is a key of \<open>V\<close> has an index that a tensor of size \<open>|V|\<close>
  accepts.
\<close>

definition indices_in_bounds :: "string list \<Rightarrow> vocab \<Rightarrow> bool" where
  "indices_in_bounds T V =
     list_all (\<lambda>w. case fmlookup V w of
                      None \<Rightarrow> True
                    | Some i \<Rightarrow> - int (len_dict V) \<le> i \<and> i < int (len_dict V)) T"

text \<open>Every such index fits in a signed 64-bit integer.\<close>

definition indices_fit_int64 :: "string list \<Rightarrow> vocab \<Rightarrow> bool" where
  "indices_fit_int64 T V =
     list_all (\<lambda>w. case fmlookup V w of
                      None \<Rightarrow> True
                    | Some i \<Rightarrow> - (2 ^ 63) \<le> i \<and> i < 2 ^ 63) T"

section \<open>Corpus files\<close>

text \<open>
  The fields of a line, said without \<^verbatim>\<open>split\<close>: the text field is what stands before the
  first tab, the label field what stands between the first tab and the second (or the
  end of the line). A line is malformed when it has no tab or \<^verbatim>\<open>int\<close> rejects its label
  field; \<open>line_error\<close> is the error such a line raises.
\<close>

definition text_field :: "string \<Rightarrow> string" where
  "text_field line = takeWhile (\<lambda>c. c \<noteq> TAB) line"

definition label_field :: "string \<Rightarrow> string" where
  "label_field line = takeWhile (\<lambda>c. c \<noteq> TAB) (tl (dropWhile (\<lambda>c. c \<noteq> TAB) line))"

definition malformed :: "string \<Rightarrow> bool" where
  "malformed line \<longleftrightarrow> TAB \<notin> set line \<or> isl (py_int (label_field line))"

definition line_error :: "string \<Rightarrow> error" where
  "line_error line = (if TAB \<notin> set line then IndexError else ValueError)"

definition example_of :: "(string \<Rightarrow> string list) \<Rightarrow> string \<Rightarrow> SentimentExample" where
  "example_of tokenize line =
     \<lparr>words = tokenize (text_field line), label = projr (py_int (label_field line))\<rparr>"

text \<open>
  A well-formed file. A text field has no tab and no line break. A label field is a
  decimal integer: an optional sign and at least one decimal digit, with the usual
  value; \<open>is_label\<close> adds that it has no more digits than \<^verbatim>\<open>int\<close> converts. A line ends in
  \<^verbatim>\<open>\n\<close>, \<^verbatim>\<open>\r\n\<close> or \<^verbatim>\<open>\r\<close>, and the last line of a file may have no line end. A row is a
  text field, a label field and a line end; \<open>corpus_text\<close> writes the rows as the lines
  \<^verbatim>\<open><text>\t<label><line end>\<close>.
\<close>

definition plain_field :: "string \<Rightarrow> bool" where
  "plain_field s \<longleftrightarrow> TAB \<notin> set s \<and> LF \<notin> set s \<and> CR \<notin> set s"

definition digits_of :: "string \<Rightarrow> string" where
  "digits_of s =
     (case s of
        [] \<Rightarrow> []
      | c # cs \<Rightarrow> if c = CHR ''-'' \<or> c = CHR ''+'' then cs else s)"

definition is_decimal :: "string \<Rightarrow> bool" where
  "is_decimal s \<longleftrightarrow> digits_of s \<noteq> [] \<and> list_all is_digit (digits_of s)"

definition is_label :: "string \<Rightarrow> bool" where
  "is_label s \<longleftrightarrow> is_decimal s \<and> length (digits_of s) \<le> int_max_str_digits"

definition decimal_value :: "string \<Rightarrow> int" where
  "decimal_value s =
     (let v = foldl (\<lambda>a c. 10 * a + digit_val c) 0 (digits_of s) in
      case s of
        [] \<Rightarrow> v
      | c # cs \<Rightarrow> if c = CHR ''-'' then - v else v)"

definition line_end :: "string \<Rightarrow> bool" where
  "line_end e \<longleftrightarrow> e = [LF] \<or> e = [CR, LF] \<or> e = [CR]"

fun well_formed_rows :: "(string \<times> string \<times> string) list \<Rightarrow> bool" where
  "well_formed_rows [] = True"
| "well_formed_rows [(t, l, e)] = (plain_field t \<and> is_label l \<and> (e = [] \<or> line_end e))"
| "well_formed_rows ((t, l, e) # r # rows) =
     (plain_field t \<and> is_label l \<and> line_end e \<and> well_formed_rows (r # rows))"

definition corpus_text :: "(string \<times> string \<times> string) list \<Rightarrow> string" where
  "corpus_text rows = concat (map (\<lambda>(t, l, e). t @ [TAB] @ l @ e) rows)"

section \<open>The vectorizer's loops\<close>

lemma bit_length_bounds: "2 ^ k \<le> n \<Longrightarrow> n < 2 ^ Suc k \<Longrightarrow> bit_length n = Suc k"
proof (induction k arbitrary: n)
  case 0
  then have "n = 1" by simp
  then show ?case by (simp add: bit_length.simps [of "Suc 0"] bit_length.simps [of 0])
next
  case (Suc k)
  then have "2 ^ k \<le> n div 2" "n div 2 < 2 ^ Suc k" "n \<noteq> 0" by auto
  then have "bit_length (n div 2) = Suc k" "n \<noteq> 0" using Suc.IH by simp_all
  then show ?case by (simp add: bit_length.simps [of n])
qed

text \<open>Integers up to \<open>2^24\<close> are float32 values.\<close>

lemma float32_exact: "n \<le> 2 ^ 24 \<Longrightarrow> float32_of_nat n = real n"
proof (cases "n < 2 ^ 24")
  case True
  then show ?thesis by (simp add: float32_of_nat_def)
next
  case False
  assume "n \<le> 2 ^ 24"
  then have n: "n = 2 ^ 24" using False by simp
  have "bit_length (2 ^ 24) = Suc 24" by (rule bit_length_bounds) simp_all
  then show ?thesis unfolding n by (simp add: float32_of_nat_def Let_def)
qed

lemma bow_binary_as_count:
  "bow_binary V ws bow = bow_count V (map (\<lambda>w. (w, 1)) ws) bow"
  by (induction ws arbitrary: bow) (auto split: option.splits sum.splits)

lemma setitem_length: "setitem bow i v = Inr bow' \<Longrightarrow> length bow' = length bow"
  by (auto simp: setitem_def Let_def split: if_splits)

lemma setitem_Inr_iff:
  "(\<exists>bow'. setitem bow i v = Inr bow') \<longleftrightarrow> - int (length bow) \<le> i \<and> i < int (length bow)"
  by (auto simp: setitem_def Let_def)

lemma setitem_nth:
  "setitem bow i v = Inr bow' \<Longrightarrow> j < length bow \<Longrightarrow>
   bow' ! j = (if slot (length bow) i = j then float32_of_nat v else bow ! j)"
  by (auto simp: setitem_def Let_def slot_def split: if_splits)

lemma bow_count_append:
  "bow_count V (xs @ ys) bow =
     (case bow_count V xs bow of Inl e \<Rightarrow> Inl e | Inr b \<Rightarrow> bow_count V ys b)"
  by (induction xs arbitrary: bow) (auto split: option.splits sum.splits)

lemma bow_count_length:
  "bow_count V items bow = Inr bow' \<Longrightarrow> length bow' = length bow"
proof (induction items arbitrary: bow)
  case Nil
  then show ?case by simp
next
  case (Cons x items)
  obtain w c where x: "x = (w, c)" by (cases x)
  show ?case
    using Cons.prems Cons.IH x
    by (auto split: option.splits sum.splits dest: setitem_length)
qed

text \<open>The loop returns exactly when every index it meets is within the tensor.\<close>

lemma bow_count_Inr_iff:
  "(\<exists>bow'. bow_count V items bow = Inr bow') \<longleftrightarrow>
   (\<forall>w \<in> fst ` set items. \<forall>i. fmlookup V w = Some i \<longrightarrow>
        - int (length bow) \<le> i \<and> i < int (length bow))"
proof (induction items arbitrary: bow)
  case Nil
  then show ?case by simp
next
  case (Cons x items)
  obtain w c where x: "x = (w, c)" by (cases x)
  show ?case
  proof (cases "fmlookup V w")
    case None
    then show ?thesis using Cons.IH [of bow] x by auto
  next
    case (Some i)
    show ?thesis
    proof (cases "setitem bow i c")
      case (Inl e)
      then have "\<not> (- int (length bow) \<le> i \<and> i < int (length bow))"
        using setitem_Inr_iff [of bow i c] by auto
      then show ?thesis using Some Inl x by auto
    next
      case (Inr b)
      then have len: "length b = length bow" by (rule setitem_length)
      have rng: "- int (length bow) \<le> i \<and> i < int (length bow)"
        using setitem_Inr_iff [of bow i c] Inr by auto
      show ?thesis using Some Inr x Cons.IH [of b] len rng by auto
    qed
  qed
qed

text \<open>The error is an index error when the indices fit in 64 bits.\<close>

lemma bow_count_Inl:
  "bow_count V items bow = Inl e \<Longrightarrow>
   \<forall>w \<in> fst ` set items. \<forall>i. fmlookup V w = Some i \<longrightarrow> - (2 ^ 63) \<le> i \<and> i < 2 ^ 63 \<Longrightarrow>
   e = IndexError"
proof (induction items arbitrary: bow)
  case Nil
  then show ?case by simp
next
  case (Cons x items)
  obtain w c where x: "x = (w, c)" by (cases x)
  show ?case
  proof (cases "fmlookup V w")
    case None
    then show ?thesis using Cons x by auto
  next
    case (Some i)
    then have fit: "- (2 ^ 63) \<le> i \<and> i < 2 ^ 63" using Cons.prems(2) x by auto
    show ?thesis
    proof (cases "setitem bow i c")
      case (Inl e')
      then have "e' = IndexError"
        using fit by (auto simp: setitem_def Let_def split: if_splits)
      then show ?thesis using Cons.prems(1) Some Inl x by simp
    next
      case (Inr b)
      then have "bow_count V items b = Inl e" using Cons.prems(1) Some x by simp
      then show ?thesis using Cons.IH [of b] Cons.prems(2) by auto
    qed
  qed
qed

lemma bow_count_untouched:
  "bow_count V items bow = Inr bow' \<Longrightarrow> j < length bow \<Longrightarrow>
   \<forall>w \<in> fst ` set items. \<not> writes V (length bow) w j \<Longrightarrow> bow' ! j = bow ! j"
proof (induction items arbitrary: bow)
  case Nil
  then show ?case by simp
next
  case (Cons x items)
  obtain w c where x: "x = (w, c)" by (cases x)
  show ?case
  proof (cases "fmlookup V w")
    case None
    then show ?thesis using Cons x by auto
  next
    case (Some i)
    then obtain b where b: "setitem bow i c = Inr b" and r: "bow_count V items b = Inr bow'"
      using Cons.prems(1) x by (auto split: sum.splits)
    have len: "length b = length bow" using b by (rule setitem_length)
    have "slot (length bow) i \<noteq> j" using Cons.prems(3) Some x by (auto simp: writes_def)
    then have "b ! j = bow ! j" using setitem_nth [OF b Cons.prems(2)] by simp
    moreover have "bow' ! j = b ! j"
      using Cons.IH [OF r] Cons.prems(2,3) len by auto
    ultimately show ?thesis by simp
  qed
qed

lemma bow_count_last_write:
  assumes "bow_count V (pre @ (w, c) # post) bow = Inr bow'"
    and "writes V (length bow) w j" and "j < length bow"
    and "\<forall>u \<in> fst ` set post. \<not> writes V (length bow) u j"
  shows "bow' ! j = float32_of_nat c"
proof -
  obtain b1 where b1: "bow_count V pre bow = Inr b1"
    and r1: "bow_count V ((w, c) # post) b1 = Inr bow'"
    using assms(1) by (auto simp: bow_count_append split: sum.splits)
  have l1: "length b1 = length bow" using b1 by (rule bow_count_length)
  obtain i where i: "fmlookup V w = Some i" "slot (length bow) i = j"
    using assms(2) by (auto simp: writes_def)
  obtain b2 where b2: "setitem b1 i c = Inr b2" and r2: "bow_count V post b2 = Inr bow'"
    using r1 i by (auto split: sum.splits)
  have l2: "length b2 = length bow" using setitem_length [OF b2] l1 by simp
  have "b2 ! j = float32_of_nat c" using setitem_nth [OF b2, of j] i l1 assms(3) by simp
  moreover have "bow' ! j = b2 ! j"
    using bow_count_untouched [OF r2] assms(3,4) l2 by simp
  ultimately show ?thesis by simp
qed

section \<open>The counter\<close>

lemma counter_incr_keys:
  "map fst (counter_incr w items) =
     (if w \<in> fst ` set items then map fst items else map fst items @ [w])"
  by (induction w items rule: counter_incr.induct) auto

lemma counter_incr_map_of:
  "map_of (counter_incr w items) =
     (map_of items)(w \<mapsto> (case map_of items w of None \<Rightarrow> 1 | Some c \<Rightarrow> c + 1))"
  by (induction w items rule: counter_incr.induct) (auto simp: fun_eq_iff)

lemma Counter_snoc: "Counter (xs @ [x]) = counter_incr x (Counter xs)"
  by (simp add: Counter_def)

lemma Counter_keys_set: "fst ` set (Counter T) = set T"
proof (induction T rule: rev_induct)
  case Nil
  then show ?case by (simp add: Counter_def)
next
  case (snoc x xs)
  have "set (map fst (Counter (xs @ [x]))) = set (xs @ [x])"
    unfolding Counter_snoc counter_incr_keys using snoc by auto
  then show ?case by simp
qed

lemma Counter_keys_distinct: "distinct (map fst (Counter T))"
proof (induction T rule: rev_induct)
  case Nil
  then show ?case by (simp add: Counter_def)
next
  case (snoc x xs)
  then show ?case
    unfolding Counter_snoc counter_incr_keys by auto
qed

lemma Counter_map_of:
  "map_of (Counter T) w = (if w \<in> set T then Some (count_list T w) else None)"
proof (induction T rule: rev_induct)
  case Nil
  then show ?case by (simp add: Counter_def)
next
  case (snoc x xs)
  then show ?case
    unfolding Counter_snoc counter_incr_map_of by auto
qed

lemma Counter_item:
  "(w, c) \<in> set (Counter T) \<longleftrightarrow> w \<in> set T \<and> c = count_list T w"
  using map_of_eq_Some_iff [OF Counter_keys_distinct, of T w c] Counter_map_of [of T w]
  by (auto split: if_splits)

text \<open>The keys stand in the order of their first occurrence.\<close>

lemma Counter_keys_first:
  "w \<notin> set pre \<Longrightarrow>
   \<exists>R. map fst (Counter (pre @ w # post)) = map fst (Counter pre) @ w # R \<and>
       set R \<inter> insert w (set pre) = {}"
proof (induction post rule: rev_induct)
  case Nil
  then show ?case
    using Counter_snoc [of pre w] Counter_keys_set [of pre]
    by (simp add: counter_incr_keys)
next
  case (snoc x xs)
  then obtain R where R: "map fst (Counter (pre @ w # xs)) = map fst (Counter pre) @ w # R"
    and d: "set R \<inter> insert w (set pre) = {}" by blast
  have eq: "Counter (pre @ w # xs @ [x]) = counter_incr x (Counter (pre @ w # xs))"
    using Counter_snoc [of "pre @ w # xs" x] by simp
  show ?case
  proof (cases "x \<in> set (pre @ w # xs)")
    case True
    then show ?thesis
      using R d eq Counter_keys_set [of "pre @ w # xs"] by (auto simp: counter_incr_keys)
  next
    case False
    then have "map fst (Counter (pre @ w # xs @ [x])) = map fst (Counter pre) @ w # (R @ [x])"
      using R eq Counter_keys_set [of "pre @ w # xs"] by (auto simp: counter_incr_keys)
    moreover have "set (R @ [x]) \<inter> insert w (set pre) = {}"
      using d False by auto
    ultimately show ?thesis by blast
  qed
qed

lemma Counter_split_first:
  assumes "w \<notin> set pre"
  shows "\<exists>A B. Counter (pre @ w # post) = A @ (w, count_list (pre @ w # post) w) # B \<and>
           fst ` set B \<inter> insert w (set pre) = {}"
proof -
  obtain R where R: "map fst (Counter (pre @ w # post)) = map fst (Counter pre) @ w # R"
    and d: "set R \<inter> insert w (set pre) = {}"
    using Counter_keys_first [OF assms] by blast
  obtain A x B where s: "Counter (pre @ w # post) = A @ x # B"
    and "map fst A = map fst (Counter pre)" and x: "fst x = w" and B: "map fst B = R"
    using R by (auto simp: map_eq_append_conv map_eq_Cons_conv)
  obtain c where xc: "x = (w, c)" using x by (cases x) simp
  have "(w, c) \<in> set (Counter (pre @ w # post))" using s xc by simp
  then have "c = count_list (pre @ w # post) w"
    unfolding Counter_item by blast
  then have "x = (w, count_list (pre @ w # post) w)" using xc by simp
  moreover have "fst ` set B = set R" using B by (metis set_map)
  ultimately show ?thesis using s d by blast
qed

section \<open>Entries of the vector\<close>

lemma len_dict_card: "len_dict V = card (fmdom' V)"
  by (simp add: len_dict_def fcard.rep_eq fmdom'_alt_def)

lemma slot_nonneg: "0 \<le> i \<Longrightarrow> slot n i = nat i"
  by (simp add: slot_def)

lemma writes_valid:
  assumes "valid_indices V"
  shows "writes V (len_dict V) w j \<longleftrightarrow> fmlookup V w = Some (int j)"
proof
  assume "writes V (len_dict V) w j"
  then obtain i where i: "fmlookup V w = Some i" "slot (len_dict V) i = j"
    by (auto simp: writes_def)
  then have "0 \<le> i" using assms unfolding valid_indices_def by blast
  then show "fmlookup V w = Some (int j)" using i by (auto simp: slot_def)
next
  assume "fmlookup V w = Some (int j)"
  then show "writes V (len_dict V) w j" by (auto simp: writes_def slot_def)
qed

lemma vocabulary_onto:
  assumes "is_vocabulary V" and "j < len_dict V"
  shows "\<exists>w. fmlookup V w = Some (int j)"
proof -
  let ?D = "fmdom' V"
  let ?f = "\<lambda>w. the (fmlookup V w)"
  let ?n = "len_dict V"
  have inj: "inj_on ?f ?D"
  proof (rule inj_onI)
    fix x y assume "x \<in> ?D" "y \<in> ?D" "?f x = ?f y"
    then obtain i where "fmlookup V x = Some i" "fmlookup V y = Some i"
      by (auto simp: fmlookup_dom'_iff)
    then show "x = y" using assms(1) unfolding is_vocabulary_def by blast
  qed
  have sub: "?f ` ?D \<subseteq> int ` {0..<?n}"
  proof
    fix i assume "i \<in> ?f ` ?D"
    then obtain w where "fmlookup V w = Some i" by (auto simp: fmlookup_dom'_iff)
    then have "0 \<le> i \<and> i < int ?n"
      using assms(1) unfolding is_vocabulary_def valid_indices_def by blast
    then show "i \<in> int ` {0..<?n}" by (intro image_eqI [of _ _ "nat i"]) auto
  qed
  have "card (?f ` ?D) = card (int ` {0..<?n})"
    using inj by (simp add: card_image len_dict_card)
  then have "?f ` ?D = int ` {0..<?n}"
    using sub by (intro card_subset_eq) auto
  then have "int j \<in> ?f ` ?D" using assms(2) by auto
  then show ?thesis by (auto simp: fmlookup_dom'_iff)
qed

lemma zeros_length: "length (zeros n) = n"
  by (simp add: zeros_def)

lemma zeros_nth: "j < n \<Longrightarrow> zeros n ! j = 0"
  by (simp add: zeros_def)

lemma count_entry:
  assumes r: "bow_count V (Counter T) bow0 = Inr bow"
    and T: "T = pre @ w # post" and pre: "w \<notin> set pre"
    and w: "writes V (length bow0) w j" and j: "j < length bow0"
    and others: "\<forall>u \<in> set T. u \<notin> set pre \<and> u \<noteq> w \<longrightarrow> \<not> writes V (length bow0) u j"
  shows "bow ! j = float32_of_nat (count_list T w)"
proof -
  obtain A B where s: "Counter T = A @ (w, count_list T w) # B"
    and d: "fst ` set B \<inter> insert w (set pre) = {}"
    using Counter_split_first [OF pre, of post] T by auto
  have "fst ` set B \<subseteq> set T"
    using Counter_keys_set [of T] s by auto
  then have "\<forall>u \<in> fst ` set B. \<not> writes V (length bow0) u j"
    using d others by blast
  then show ?thesis
    using bow_count_last_write [of V A w "count_list T w" B bow0 bow j] r s w j by simp
qed

lemma count_entry_absent:
  assumes r: "bow_count V (Counter T) bow0 = Inr bow" and j: "j < length bow0"
    and "\<forall>u \<in> set T. \<not> writes V (length bow0) u j"
  shows "bow ! j = bow0 ! j"
  using bow_count_untouched [OF r j] assms(3) Counter_keys_set [of T] by simp

lemma binary_entry:
  assumes r: "bow_binary V T bow0 = Inr bow" and j: "j < length bow0"
  shows "bow ! j = (if \<exists>u \<in> set T. writes V (length bow0) u j then 1 else bow0 ! j)"
proof (cases "\<exists>u \<in> set T. writes V (length bow0) u j")
  case False
  let ?items = "map (\<lambda>w. (w, 1::nat)) T"
  have "fst ` set ?items = set T" by force
  then show ?thesis
    using bow_count_untouched [of V ?items bow0 bow j] r j False
    by (simp add: bow_binary_as_count)
next
  case True
  then obtain pre u post where T: "T = pre @ u # post" and u: "writes V (length bow0) u j"
    and post: "\<forall>x \<in> set post. \<not> writes V (length bow0) x j"
    using split_list_last_prop [of T "\<lambda>u. writes V (length bow0) u j"] by blast
  let ?f = "\<lambda>w. (w, 1::nat)"
  have "bow_count V (map ?f pre @ (u, 1) # map ?f post) bow0 = Inr bow"
    using r T by (simp add: bow_binary_as_count)
  moreover have "fst ` set (map ?f post) = set post" by force
  ultimately have "bow ! j = float32_of_nat 1"
    using bow_count_last_write [of V "map ?f pre" u 1 "map ?f post" bow0 bow j] u j post
    by simp
  then show ?thesis using True float32_exact [of "Suc 0"] by simp
qed

lemma valid_indices_bounds:
  "valid_indices V \<Longrightarrow> fmlookup V w = Some i \<Longrightarrow>
   - int (len_dict V) \<le> i \<and> i < int (len_dict V)"
  unfolding valid_indices_def by force

lemma count_mode_returns:
  assumes "valid_indices V"
  shows "\<exists>bow. bow_count V items (zeros (len_dict V)) = Inr bow \<and> length bow = len_dict V"
proof -
  have "\<exists>bow. bow_count V items (zeros (len_dict V)) = Inr bow"
    unfolding bow_count_Inr_iff zeros_length
    using valid_indices_bounds [OF assms] by blast
  then obtain bow where b: "bow_count V items (zeros (len_dict V)) = Inr bow" ..
  have "length bow = len_dict V"
    using bow_count_length [OF b] by (simp add: zeros_length)
  then show ?thesis using b by blast
qed

lemma count_mode_entry:
  assumes voc: "is_vocabulary V"
    and r: "bow_count V (Counter T) (zeros (len_dict V)) = Inr bow"
    and look: "fmlookup V w = Some i"
  shows "bow ! nat i = float32_of_nat (count_list T w)"
proof -
  let ?n = "len_dict V"
  have v: "valid_indices V" using voc by (simp add: is_vocabulary_def)
  have i: "0 \<le> i" "i < int ?n" using v look unfolding valid_indices_def by blast+
  then have j: "nat i < length (zeros ?n)" "int (nat i) = i" by (simp_all add: zeros_length)
  have w: "writes V (length (zeros ?n)) w (nat i)"
    using writes_valid [OF v, of w "nat i"] look j by (simp add: zeros_length)
  have other: "\<not> writes V (length (zeros ?n)) u (nat i)" if "u \<noteq> w" for u
  proof
    assume "writes V (length (zeros ?n)) u (nat i)"
    then have "fmlookup V u = Some i"
      using writes_valid [OF v, of u "nat i"] j by (simp add: zeros_length)
    then show False using look voc that unfolding is_vocabulary_def by blast
  qed
  show ?thesis
  proof (cases "w \<in> set T")
    case True
    then obtain pre post where T: "T = pre @ w # post" and pre: "w \<notin> set pre"
      using split_list_first by fast
    have "\<forall>u \<in> set T. u \<notin> set pre \<and> u \<noteq> w \<longrightarrow>
            \<not> writes V (length (zeros ?n)) u (nat i)"
      using other by simp
    then show ?thesis
      by (rule count_entry [OF r T pre w j(1)])
  next
    case False
    have "\<forall>u \<in> set T. \<not> writes V (length (zeros ?n)) u (nat i)"
    proof
      fix u assume "u \<in> set T"
      then have "u \<noteq> w" using False by auto
      then show "\<not> writes V (length (zeros ?n)) u (nat i)" by (rule other)
    qed
    then have "bow ! nat i = zeros ?n ! nat i"
      by (rule count_entry_absent [OF r j(1)])
    moreover have "zeros ?n ! nat i = 0" using i by (simp add: zeros_nth)
    moreover have "float32_of_nat (count_list T w) = 0"
      using False float32_exact [of 0] by simp
    ultimately show ?thesis by simp
  qed
qed

text \<open>
  C1, as the code has it. In count mode, for a vocabulary \<open>V\<close> (valid indices, no index
  shared by two words) and any token list \<open>T\<close>, \<^verbatim>\<open>bag_of_words\<close> returns a vector of length
  \<open>|V|\<close>; the entry at the index of each word of \<open>V\<close> is the float32 nearest to the number
  of occurrences of that word in \<open>T\<close>, which is that number itself whenever it is at most
  \<open>2^24\<close> (0 when the word does not occur); every position \<open>j < |V|\<close> is the index of such a
  word, and so tokens outside \<open>V\<close> add nothing to any entry.
\<close>

theorem bag_of_words_count:
  assumes "is_vocabulary V"
  shows "\<exists>bow. bag_of_words T V False = Inr bow \<and> length bow = len_dict V \<and>
           (\<forall>w i. fmlookup V w = Some i \<longrightarrow>
              bow ! nat i = float32_of_nat (count_list T w) \<and>
              (count_list T w \<le> 2 ^ 24 \<longrightarrow> bow ! nat i = real (count_list T w))) \<and>
           (\<forall>j < len_dict V. \<exists>w. fmlookup V w = Some (int j) \<and>
              bow ! j = float32_of_nat (count_list T w) \<and>
              (count_list T w \<le> 2 ^ 24 \<longrightarrow> bow ! j = real (count_list T w)))"
proof -
  have v: "valid_indices V" using assms by (simp add: is_vocabulary_def)
  obtain bow where r: "bow_count V (Counter T) (zeros (len_dict V)) = Inr bow"
    and len: "length bow = len_dict V"
    using count_mode_returns [OF v] by blast
  have e: "bow ! nat i = float32_of_nat (count_list T w) \<and>
           (count_list T w \<le> 2 ^ 24 \<longrightarrow> bow ! nat i = real (count_list T w))"
    if look: "fmlookup V w = Some i" for w i
  proof -
    have "bow ! nat i = float32_of_nat (count_list T w)"
      using count_mode_entry [OF assms r look] .
    then show ?thesis using float32_exact [of "count_list T w"] by simp
  qed
  have "\<exists>w. fmlookup V w = Some (int j) \<and>
            bow ! j = float32_of_nat (count_list T w) \<and>
            (count_list T w \<le> 2 ^ 24 \<longrightarrow> bow ! j = real (count_list T w))"
    if jn: "j < len_dict V" for j
  proof -
    obtain w where look: "fmlookup V w = Some (int j)"
      using vocabulary_onto [OF assms jn] by blast
    show ?thesis using e [OF look] look by auto
  qed
  then have d: "\<forall>j < len_dict V. \<exists>w. fmlookup V w = Some (int j) \<and>
                  bow ! j = float32_of_nat (count_list T w) \<and>
                  (count_list T w \<le> 2 ^ 24 \<longrightarrow> bow ! j = real (count_list T w))"
    by blast
  have e': "\<forall>w i. fmlookup V w = Some i \<longrightarrow>
              bow ! nat i = float32_of_nat (count_list T w) \<and>
              (count_list T w \<le> 2 ^ 24 \<longrightarrow> bow ! nat i = real (count_list T w))"
    using e by blast
  have "bag_of_words T V False = Inr bow"
    using r by (simp add: bag_of_words_def)
  then show ?thesis using len e' d by blast
qed

lemma len_dict_fmupd:
  "len_dict (fmupd k v d) = (if k |\<in>| fmdom d then len_dict d else Suc (len_dict d))"
  by (simp add: len_dict_def fcard_finsert_if)

lemma len_dict_fmempty: "len_dict fmempty = 0"
  by (simp add: len_dict_def)

theorem bag_of_words_count_witness:
  "is_vocabulary (fmupd ''good'' 0 (fmupd ''movie'' 1 fmempty)) \<and>
   (\<exists>bow. bag_of_words [''good'', ''movie'', ''good'', ''film''] (fmupd ''good'' 0 (fmupd ''movie'' 1 fmempty)) False = Inr bow \<and>
      bow = [2, 1])"
proof -
  let ?V = "fmupd ''good'' 0 (fmupd ''movie'' 1 fmempty) :: vocab"
  have h: "is_vocabulary ?V"
    by (auto simp: is_vocabulary_def valid_indices_def len_dict_fmupd len_dict_fmempty
             split: if_splits)
  obtain bow where b: "bag_of_words [''good'', ''movie'', ''good'', ''film''] ?V False = Inr bow"
    "length bow = len_dict ?V"
    "\<forall>w i. fmlookup ?V w = Some i \<longrightarrow>
       bow ! nat i = float32_of_nat (count_list [''good'', ''movie'', ''good'', ''film''] w) \<and>
       (count_list [''good'', ''movie'', ''good'', ''film''] w \<le> 2 ^ 24 \<longrightarrow>
          bow ! nat i = real (count_list [''good'', ''movie'', ''good'', ''film''] w))"
    using bag_of_words_count [OF h, of "[''good'', ''movie'', ''good'', ''film'']"] by blast
  have "length bow = 2" using b(2) by (simp add: len_dict_fmupd len_dict_fmempty)
  moreover have "bow ! nat 0 = 2" using b(3) [rule_format, of "''good''" 0] by simp
  moreover have "bow ! nat 1 = 1" using b(3) [rule_format, of "''movie''" 1] by simp
  ultimately have "bow = [2, 1]"
    by (cases bow; cases "tl bow") auto
  then show ?thesis using h b(1) by blast
qed

lemma counter_incr_new:
  "w \<notin> fst ` set items \<Longrightarrow> counter_incr w items = items @ [(w, 1)]"
  by (induction w items rule: counter_incr.induct) auto

lemma counter_incr_last:
  "w \<notin> fst ` set items \<Longrightarrow> counter_incr w (items @ [(w, c)]) = items @ [(w, Suc c)]"
  by (induction w items rule: counter_incr.induct) auto

lemma replicate_snoc: "replicate (Suc n) w = replicate n w @ [w]"
  by (induction n) simp_all

lemma Counter_replicate_Suc:
  "w \<notin> set xs \<Longrightarrow> Counter (xs @ replicate (Suc n) w) = Counter xs @ [(w, Suc n)]"
proof (induction n)
  case 0
  then have "w \<notin> fst ` set (Counter xs)" by (simp add: Counter_keys_set)
  then show ?case using Counter_snoc [of xs w] by (simp add: counter_incr_new)
next
  case (Suc n)
  then have k: "w \<notin> fst ` set (Counter xs)" by (simp add: Counter_keys_set)
  have ih: "Counter (xs @ replicate (Suc n) w) = Counter xs @ [(w, Suc n)]"
    using Suc by simp
  have "xs @ replicate (Suc (Suc n)) w = (xs @ replicate (Suc n) w) @ [w]"
    by (simp only: replicate_snoc [of "Suc n" w] append_assoc)
  then have "Counter (xs @ replicate (Suc (Suc n)) w)
               = counter_incr w (Counter (xs @ replicate (Suc n) w))"
    by (simp only: Counter_snoc)
  also have "\<dots> = Counter xs @ [(w, Suc (Suc n))]"
    by (simp only: ih counter_incr_last [OF k])
  finally show ?case .
qed

lemma Counter_replicate:
  assumes "0 < n" and "w \<notin> set xs"
  shows "Counter (xs @ replicate n w) = Counter xs @ [(w, n)]"
proof -
  obtain m where "n = Suc m" using assms(1) by (cases n) auto
  then show ?thesis using Counter_replicate_Suc [OF assms(2), of m] by simp
qed

lemma count_list_replicate: "count_list (xs @ replicate n w) w = count_list xs w + n"
  by (induction n) simp_all

lemma float32_16777217: "float32_of_nat 16777217 = 16777216"
proof -
  have "bit_length 16777217 = Suc 24" by (rule bit_length_bounds) simp_all
  then show ?thesis by (simp add: float32_of_nat_def Let_def)
qed


text \<open>
  C1 as stated fails: the entries are float32, and a count above \<open>2^24\<close> need not be one.
  With 16777217 occurrences of the only word of the vocabulary, the entry is 16777216.
\<close>

theorem bag_of_words_count_counterexample:
  "is_vocabulary (fmupd ''good'' 0 fmempty) \<and>
   count_list (replicate 16777217 ''good'') ''good'' = 16777217 \<and>
   bag_of_words (replicate 16777217 ''good'') (fmupd ''good'' 0 fmempty) False
     = Inr [16777216]"
proof -
  let ?V = "fmupd ''good'' 0 fmempty :: vocab"
  have h: "is_vocabulary ?V"
    by (auto simp: is_vocabulary_def valid_indices_def len_dict_fmupd len_dict_fmempty
             split: if_splits)
  have c: "count_list (replicate 16777217 ''good'') ''good'' = 16777217"
    using count_list_replicate [of "[]" 16777217 "''good''"]
    by (simp only: append_Nil count_list.simps add_0)
  have "Counter ([] @ replicate 16777217 ''good'') = Counter [] @ [(''good'', 16777217)]"
    by (rule Counter_replicate) simp_all
  then have k: "Counter (replicate 16777217 ''good'') = [(''good'', 16777217)]"
    by (simp only: append_Nil Counter_def foldl_Nil)
  have z: "zeros (len_dict ?V) = [0]"
    by (simp add: len_dict_fmupd len_dict_fmempty zeros_def)
  have "bow_count ?V [(''good'', 16777217)] [0] = Inr [16777216]"
    by (simp add: setitem_def float32_16777217)
  then have "bag_of_words (replicate 16777217 ''good'') ?V False = Inr [16777216]"
    by (simp only: bag_of_words_def Let_def k z if_False)
  then show ?thesis using h c by blast
qed

section \<open>Binary mode\<close>

lemma binary_mode_entry:
  assumes voc: "is_vocabulary V"
    and r: "bow_binary V T (zeros (len_dict V)) = Inr bow"
    and look: "fmlookup V w = Some i"
  shows "bow ! nat i = (if w \<in> set T then 1 else 0)"
proof -
  let ?n = "len_dict V"
  have v: "valid_indices V" using voc by (simp add: is_vocabulary_def)
  have i: "0 \<le> i" "i < int ?n" using v look unfolding valid_indices_def by blast+
  then have j: "nat i < length (zeros ?n)" "int (nat i) = i" by (simp_all add: zeros_length)
  have wr: "writes V (length (zeros ?n)) u (nat i) \<longleftrightarrow> u = w" for u
  proof
    assume "writes V (length (zeros ?n)) u (nat i)"
    then have "fmlookup V u = Some i"
      using writes_valid [OF v, of u "nat i"] j by (simp add: zeros_length)
    then show "u = w" using look voc unfolding is_vocabulary_def by blast
  next
    assume "u = w"
    then show "writes V (length (zeros ?n)) u (nat i)"
      using writes_valid [OF v, of w "nat i"] look j by (simp add: zeros_length)
  qed
  have "zeros ?n ! nat i = 0" using i by (simp add: zeros_nth)
  then show ?thesis
    using binary_entry [OF r j(1)] wr by simp
qed

lemma binary_mode_returns:
  assumes "valid_indices V"
  shows "\<exists>bow. bow_binary V T (zeros (len_dict V)) = Inr bow \<and> length bow = len_dict V"
  unfolding bow_binary_as_count using assms by (rule count_mode_returns)

text \<open>
  C2. In binary mode, for a vocabulary \<open>V\<close> and any token list \<open>T\<close>, \<^verbatim>\<open>bag_of_words\<close>
  returns a vector of length \<open>|V|\<close> whose entries are all 0 or 1; the entry at the index of
  a word is 1 exactly when the word occurs in \<open>T\<close>, every position is the index of a word
  of \<open>V\<close>, and a token list with the same set of words (so any repetition of words)
  gives the same vector.
\<close>

theorem bag_of_words_binary:
  assumes "is_vocabulary V"
  shows "\<exists>bow. bag_of_words T V True = Inr bow \<and> length bow = len_dict V \<and>
           (\<forall>j < len_dict V. bow ! j = 0 \<or> bow ! j = 1) \<and>
           (\<forall>w i. fmlookup V w = Some i \<longrightarrow> (bow ! nat i = 1 \<longleftrightarrow> w \<in> set T)) \<and>
           (\<forall>j < len_dict V. \<exists>w. fmlookup V w = Some (int j) \<and>
                                   (bow ! j = 1 \<longleftrightarrow> w \<in> set T)) \<and>
           (\<forall>T'. set T' = set T \<longrightarrow> bag_of_words T' V True = Inr bow)"
proof -
  have v: "valid_indices V" using assms by (simp add: is_vocabulary_def)
  obtain bow where r: "bow_binary V T (zeros (len_dict V)) = Inr bow"
    and len: "length bow = len_dict V"
    using binary_mode_returns [OF v] by blast
  have e: "bow ! nat i = (if w \<in> set T then 1 else 0)" if "fmlookup V w = Some i" for w i
    using binary_mode_entry [OF assms r that] .
  have onto: "\<exists>w. fmlookup V w = Some (int j) \<and> bow ! j = (if w \<in> set T then 1 else 0)"
    if jn: "j < len_dict V" for j
  proof -
    obtain w where look: "fmlookup V w = Some (int j)"
      using vocabulary_onto [OF assms jn] by blast
    show ?thesis using e [OF look] look by auto
  qed
  have c1: "\<forall>j < len_dict V. bow ! j = 0 \<or> bow ! j = 1"
    using onto by (metis (full_types))
  have c2: "\<forall>w i. fmlookup V w = Some i \<longrightarrow> (bow ! nat i = 1 \<longleftrightarrow> w \<in> set T)"
    using e by simp
  have c3: "\<forall>j < len_dict V. \<exists>w. fmlookup V w = Some (int j) \<and>
                                   (bow ! j = 1 \<longleftrightarrow> w \<in> set T)"
  proof (intro allI impI)
    fix j assume "j < len_dict V"
    then obtain w where "fmlookup V w = Some (int j)"
      "bow ! j = (if w \<in> set T then 1 else 0)" using onto by blast
    then show "\<exists>w. fmlookup V w = Some (int j) \<and> (bow ! j = 1 \<longleftrightarrow> w \<in> set T)"
      by (intro exI [of _ w]) simp
  qed
  have c4: "\<forall>T'. set T' = set T \<longrightarrow> bag_of_words T' V True = Inr bow"
  proof (intro allI impI)
    fix T' assume s: "set T' = set T"
    obtain bow' where r': "bow_binary V T' (zeros (len_dict V)) = Inr bow'"
      and len': "length bow' = len_dict V"
      using binary_mode_returns [OF v] by blast
    have "bow' = bow"
    proof (rule nth_equalityI)
      show "length bow' = length bow" using len len' by simp
    next
      fix j assume "j < length bow'"
      then have jn: "j < len_dict V" using len' by simp
      obtain w where look: "fmlookup V w = Some (int j)"
        using vocabulary_onto [OF assms jn] by blast
      have "bow' ! nat (int j) = (if w \<in> set T' then 1 else 0)"
        using binary_mode_entry [OF assms r' look] .
      moreover have "bow ! nat (int j) = (if w \<in> set T then 1 else 0)"
        using e [OF look] .
      ultimately show "bow' ! j = bow ! j" using s by simp
    qed
    then show "bag_of_words T' V True = Inr bow"
      using r' by (simp add: bag_of_words_def)
  qed
  have "bag_of_words T V True = Inr bow"
    using r by (simp add: bag_of_words_def)
  then show ?thesis using len c1 c2 c3 c4 by blast
qed

theorem bag_of_words_binary_witness:
  "is_vocabulary (fmupd ''good'' 0 (fmupd ''movie'' 1 (fmupd ''bad'' 2 fmempty))) \<and>
   (\<exists>bow. bag_of_words [''good'', ''movie'', ''good'']
              (fmupd ''good'' 0 (fmupd ''movie'' 1 (fmupd ''bad'' 2 fmempty))) True = Inr bow \<and>
      bow = [1, 1, 0])"
proof -
  let ?V = "fmupd ''good'' 0 (fmupd ''movie'' 1 (fmupd ''bad'' 2 fmempty)) :: vocab"
  let ?T = "[''good'', ''movie'', ''good'']"
  have h: "is_vocabulary ?V"
    by (auto simp: is_vocabulary_def valid_indices_def len_dict_fmupd len_dict_fmempty
             split: if_splits)
  obtain bow where b: "bag_of_words ?T ?V True = Inr bow"
    using bag_of_words_binary [OF h, of ?T] by blast
  have "bag_of_words ?T ?V True = Inr [1, 1, 0]"
    by (simp add: bag_of_words_def len_dict_fmupd len_dict_fmempty zeros_def setitem_def
                  numeral_3_eq_3 float32_exact)
  then show ?thesis using h b by simp
qed

section \<open>The empty vocabulary\<close>

lemma bow_count_fmempty: "bow_count fmempty items bow = Inr bow"
  by (induction items) auto

lemma bow_binary_fmempty: "bow_binary fmempty T bow = Inr bow"
  by (simp add: bow_binary_as_count bow_count_fmempty)

text \<open>
  C8. With the empty vocabulary, \<^verbatim>\<open>bag_of_words\<close> returns the vector of length 0 for every
  token list, in binary and in count mode, and raises nothing.
\<close>

theorem bag_of_words_empty_vocab: "bag_of_words T fmempty binary = Inr []"
  by (simp add: bag_of_words_def len_dict_fmempty zeros_def bow_count_fmempty
                bow_binary_fmempty)

section \<open>A shared index\<close>




section \<open>The vocabulary builder\<close>

lemma dict_of_foldl_lookup:
  "fmlookup (foldl (\<lambda>d (k, v). fmupd k v d) d0 kvs) k =
     (case map_of (rev kvs) k of None \<Rightarrow> fmlookup d0 k | Some v \<Rightarrow> Some v)"
  by (induction kvs arbitrary: d0) (auto simp: map_add_def split: option.splits)

lemma dict_of_lookup: "fmlookup (dict_of kvs) k = map_of (rev kvs) k"
  by (simp add: dict_of_def dict_of_foldl_lookup split: option.splits)

lemma dict_of_lookup_distinct:
  assumes "distinct (map fst kvs)"
  shows "fmlookup (dict_of kvs) k = Some v \<longleftrightarrow> (k, v) \<in> set kvs"
proof -
  have "distinct (map fst (rev kvs))" using assms by (simp add: rev_map [symmetric])
  then have "map_of (rev kvs) k = Some v \<longleftrightarrow> (k, v) \<in> set (rev kvs)"
    by (rule map_of_eq_Some_iff)
  then show ?thesis by (simp add: dict_of_lookup)
qed

lemma index_pairs_keys:
  "map fst (map (\<lambda>(i, word). (word, int i)) (enumerate 0 ds)) = ds"
  by (simp add: enumerate_eq_zip map_fst_zip_take split_beta comp_def)

lemma index_pairs_set:
  "(w, v) \<in> set (map (\<lambda>(i, word). (word, int i)) (enumerate 0 ds)) \<longleftrightarrow>
     (\<exists>i < length ds. ds ! i = w \<and> v = int i)"
proof
  assume "(w, v) \<in> set (map (\<lambda>(i, word). (word, int i)) (enumerate 0 ds))"
  then obtain i word where "(i, word) \<in> set (enumerate 0 ds)" "w = word" "v = int i"
    by auto
  then show "\<exists>i < length ds. ds ! i = w \<and> v = int i"
    by (auto simp: in_set_enumerate_eq)
next
  assume "\<exists>i < length ds. ds ! i = w \<and> v = int i"
  then obtain i where i: "i < length ds" "ds ! i = w" "v = int i" by blast
  then have "(i, w) \<in> set (enumerate 0 ds)" by (simp add: in_set_enumerate_eq)
  then have "(\<lambda>(i, word). (word, int i)) (i, w)
               \<in> set (map (\<lambda>(i, word). (word, int i)) (enumerate 0 ds))"
    by (simp only: set_map) (rule imageI)
  then show "(w, v) \<in> set (map (\<lambda>(i, word). (word, int i)) (enumerate 0 ds))"
    using i(3) by simp
qed

lemma build_vocab_lookup:
  assumes "set_listing list_set"
  shows "fmlookup (build_vocab list_set examples) w = Some v \<longleftrightarrow>
           (\<exists>i < length (list_set (concat (map words examples))).
               list_set (concat (map words examples)) ! i = w \<and> v = int i)"
proof -
  let ?ds = "list_set (concat (map words examples))"
  have "distinct ?ds" using assms by (simp add: set_listing_def)
  then have "distinct (map fst (map (\<lambda>(i, word). (word, int i)) (enumerate 0 ?ds)))"
    by (simp only: index_pairs_keys)
  then show ?thesis
    unfolding build_vocab_def Let_def
    by (simp only: dict_of_lookup_distinct index_pairs_set)
qed

lemma listing_corpus_words:
  assumes "set_listing list_set"
  shows "set (list_set (concat (map words examples))) = corpus_words examples"
    and "distinct (list_set (concat (map words examples)))"
    and "length (list_set (concat (map words examples))) = card (corpus_words examples)"
proof -
  let ?ds = "list_set (concat (map words examples))"
  show s: "set ?ds = corpus_words examples"
    using assms by (auto simp: set_listing_def corpus_words_def)
  show d: "distinct ?ds" using assms by (simp add: set_listing_def)
  show "length ?ds = card (corpus_words examples)"
    using distinct_card [OF d] s by simp
qed

lemma build_vocab_dom:
  assumes "set_listing list_set"
  shows "fmdom' (build_vocab list_set examples) = corpus_words examples"
proof -
  let ?ds = "list_set (concat (map words examples))"
  have "w \<in> fmdom' (build_vocab list_set examples) \<longleftrightarrow> w \<in> set ?ds" for w
    unfolding fmlookup_dom'_iff build_vocab_lookup [OF assms]
    by (auto simp: in_set_conv_nth)
  then show ?thesis using listing_corpus_words(1) [OF assms] by blast
qed

lemma build_vocab_len:
  assumes "set_listing list_set"
  shows "len_dict (build_vocab list_set examples) = card (corpus_words examples)"
  by (simp add: len_dict_card build_vocab_dom [OF assms])

lemma build_vocab_ran:
  assumes "set_listing list_set"
  shows "fmran' (build_vocab list_set examples) = int ` {0..<card (corpus_words examples)}"
proof -
  let ?ds = "list_set (concat (map words examples))"
  have "v \<in> fmran' (build_vocab list_set examples) \<longleftrightarrow> (\<exists>i < length ?ds. v = int i)" for v
    unfolding fmlookup_ran'_iff build_vocab_lookup [OF assms] by auto
  then show ?thesis
    unfolding listing_corpus_words(3) [OF assms] by (auto simp: image_iff)
qed

lemma build_vocab_is_vocabulary:
  assumes "set_listing list_set"
  shows "is_vocabulary (build_vocab list_set examples)"
proof -
  let ?ds = "list_set (concat (map words examples))"
  let ?V = "build_vocab list_set examples"
  have n: "len_dict ?V = length ?ds"
    using build_vocab_len [OF assms] listing_corpus_words(3) [OF assms] by simp
  have "valid_indices ?V"
    unfolding valid_indices_def build_vocab_lookup [OF assms] n by auto
  moreover have "w = w'" if "fmlookup ?V w = Some i \<and> fmlookup ?V w' = Some i" for w w' i
    using that unfolding build_vocab_lookup [OF assms] by auto
  ultimately show ?thesis unfolding is_vocabulary_def by blast
qed

lemma build_vocab_Nil:
  assumes "set_listing list_set"
  shows "build_vocab list_set [] = fmempty"
proof -
  have "set (list_set []) = {}" using assms by (simp add: set_listing_def)
  then have "list_set [] = []" by simp
  then show ?thesis by (simp add: build_vocab_def dict_of_def enumerate_simps)
qed

text \<open>
  C3. For every example list, \<^verbatim>\<open>build_vocab\<close> returns a mapping whose keys are exactly the
  distinct words of the examples' token lists, whose number of keys \<open>k\<close> is the number
  of those words, whose set of values is exactly \<open>{0, ..., k-1}\<close>, and in which no two
  words share an index; the empty example list gives the empty vocabulary. This holds
  whatever the order in which \<^verbatim>\<open>list(set(...))\<close> lists the distinct words.
\<close>

theorem build_vocab_bijection:
  assumes "set_listing list_set"
  shows "fmdom' (build_vocab list_set examples) = corpus_words examples \<and>
         len_dict (build_vocab list_set examples) = card (corpus_words examples) \<and>
         fmran' (build_vocab list_set examples) = int ` {0..<card (corpus_words examples)} \<and>
         inj_on (fmlookup (build_vocab list_set examples)) (corpus_words examples) \<and>
         is_vocabulary (build_vocab list_set examples) \<and>
         build_vocab list_set [] = fmempty"
proof -
  let ?V = "build_vocab list_set examples"
  have voc: "is_vocabulary ?V" using assms by (rule build_vocab_is_vocabulary)
  have dom: "fmdom' ?V = corpus_words examples" using assms by (rule build_vocab_dom)
  have "inj_on (fmlookup ?V) (corpus_words examples)"
  proof (rule inj_onI)
    fix x y assume x: "x \<in> corpus_words examples"
      and eq: "fmlookup ?V x = fmlookup ?V y"
    have "x \<in> fmdom' ?V" using x dom by simp
    then obtain i where i: "fmlookup ?V x = Some i"
      unfolding fmlookup_dom'_iff by blast
    then have "fmlookup ?V y = Some i" using eq by simp
    then show "x = y" using i voc unfolding is_vocabulary_def by blast
  qed
  then show ?thesis
    using voc dom build_vocab_len [OF assms] build_vocab_ran [OF assms]
      build_vocab_Nil [OF assms]
    by blast
qed

lemma set_listing_remdups: "set_listing remdups"
  by (simp add: set_listing_def)

theorem build_vocab_bijection_witness:
  "set_listing remdups \<and>
   fmdom' (build_vocab remdups
      [\<lparr>words = [''good'', ''movie''], label = 1\<rparr>, \<lparr>words = [''bad'', ''movie''], label = 0\<rparr>])
     = {''good'', ''movie'', ''bad''} \<and>
   len_dict (build_vocab remdups
      [\<lparr>words = [''good'', ''movie''], label = 1\<rparr>, \<lparr>words = [''bad'', ''movie''], label = 0\<rparr>])
     = 3 \<and>
   fmran' (build_vocab remdups
      [\<lparr>words = [''good'', ''movie''], label = 1\<rparr>, \<lparr>words = [''bad'', ''movie''], label = 0\<rparr>])
     = {0, 1, 2}"
proof -
  let ?E = "[\<lparr>words = [''good'', ''movie''], label = 1\<rparr>, \<lparr>words = [''bad'', ''movie''], label = 0\<rparr>]"
  have w: "corpus_words ?E = {''good'', ''movie'', ''bad''}"
    by (auto simp: corpus_words_def)
  have c: "card {''good'', ''movie'', ''bad''} = 3" by simp
  have r: "int ` {0..<3} = {0, 1, 2}" by (auto simp: image_iff)
  show ?thesis
    using build_vocab_bijection [OF set_listing_remdups, of ?E] set_listing_remdups
    unfolding w c r by simp
qed

section \<open>Totality of the vectorizer\<close>

lemma indices_in_bounds_iff:
  "indices_in_bounds T V \<longleftrightarrow>
     (\<forall>w \<in> set T. \<forall>i. fmlookup V w = Some i \<longrightarrow>
         - int (len_dict V) \<le> i \<and> i < int (len_dict V))"
  by (auto simp: indices_in_bounds_def list_all_iff split: option.splits)

lemma indices_fit_int64_iff:
  "indices_fit_int64 T V \<longleftrightarrow>
     (\<forall>w \<in> set T. \<forall>i. fmlookup V w = Some i \<longrightarrow> - (2 ^ 63) \<le> i \<and> i < 2 ^ 63)"
  by (auto simp: indices_fit_int64_def list_all_iff split: option.splits)

lemma bag_of_words_as_count:
  "bag_of_words T V binary =
     bow_count V (if binary then map (\<lambda>w. (w, 1)) T else Counter T) (zeros (len_dict V))"
  by (simp add: bag_of_words_def bow_binary_as_count)

lemma mode_items_keys:
  "fst ` set (if binary then map (\<lambda>w. (w, 1::nat)) T else Counter T) = set T"
  by (simp add: Counter_keys_set image_image)

lemma bag_of_words_returns_iff:
  "(\<exists>bow. bag_of_words T V binary = Inr bow) \<longleftrightarrow> indices_in_bounds T V"
  unfolding bag_of_words_as_count bow_count_Inr_iff mode_items_keys zeros_length
    indices_in_bounds_iff ..

lemma bag_of_words_length:
  "bag_of_words T V binary = Inr bow \<Longrightarrow> length bow = len_dict V"
  unfolding bag_of_words_as_count
  using bow_count_length [of V _ "zeros (len_dict V)" bow] by (simp add: zeros_length)

lemma bag_of_words_IndexError:
  assumes "bag_of_words T V binary = Inl e" and "indices_fit_int64 T V"
  shows "e = IndexError"
proof -
  let ?items = "if binary then map (\<lambda>w. (w, 1::nat)) T else Counter T"
  have "bow_count V ?items (zeros (len_dict V)) = Inl e"
    using assms(1) by (simp only: bag_of_words_as_count)
  moreover have "\<forall>w \<in> fst ` set ?items. \<forall>i. fmlookup V w = Some i \<longrightarrow>
                    - (2 ^ 63) \<le> i \<and> i < 2 ^ 63"
    using assms(2) unfolding mode_items_keys indices_fit_int64_iff .
  ultimately show ?thesis by (rule bow_count_Inl)
qed

lemma bow_binary_known:
  "bow_binary V (filter (\<lambda>w. w |\<in>| fmdom V) T) bow = bow_binary V T bow"
proof (induction T arbitrary: bow)
  case Nil
  then show ?case by simp
next
  case (Cons w T)
  show ?case
  proof (cases "fmlookup V w")
    case None
    then have "w |\<notin>| fmdom V" by (simp add: fmdom_notI)
    then show ?thesis using None Cons by simp
  next
    case (Some i)
    then have "w |\<in>| fmdom V" by (simp add: fmdomI)
    then show ?thesis using Some Cons by (simp split: sum.splits)
  qed
qed

lemma bow_count_known:
  "bow_count V (filter (\<lambda>item. fst item |\<in>| fmdom V) items) bow = bow_count V items bow"
proof (induction items arbitrary: bow)
  case Nil
  then show ?case by simp
next
  case (Cons x items)
  obtain w c where x: "x = (w, c)" by (cases x)
  show ?case
  proof (cases "fmlookup V w")
    case None
    then have "w |\<notin>| fmdom V" by (simp add: fmdom_notI)
    then show ?thesis using None Cons x by simp
  next
    case (Some i)
    then have "w |\<in>| fmdom V" by (simp add: fmdomI)
    then show ?thesis using Some Cons x by (simp split: sum.splits)
  qed
qed

lemma counter_incr_filter:
  "filter (\<lambda>item. P (fst item)) (counter_incr w items) =
     (if P w then counter_incr w (filter (\<lambda>item. P (fst item)) items)
      else filter (\<lambda>item. P (fst item)) items)"
  by (induction w items rule: counter_incr.induct) auto

lemma Counter_filter:
  "Counter (filter P T) = filter (\<lambda>item. P (fst item)) (Counter T)"
proof (induction T rule: rev_induct)
  case Nil
  then show ?case by (simp add: Counter_def)
next
  case (snoc x xs)
  show ?case
  proof (cases "P x")
    case True
    then have "Counter (filter P (xs @ [x])) = counter_incr x (Counter (filter P xs))"
      using Counter_snoc [of "filter P xs" x] by simp
    then show ?thesis using True snoc by (simp add: Counter_snoc counter_incr_filter)
  next
    case False
    then show ?thesis using snoc by (simp add: Counter_snoc counter_incr_filter)
  qed
qed

lemma bag_of_words_known:
  "bag_of_words (filter (\<lambda>w. w |\<in>| fmdom V) T) V binary = bag_of_words T V binary"
  by (simp add: bag_of_words_def Let_def bow_binary_known Counter_filter bow_count_known)

lemma valid_indices_in_bounds: "valid_indices V \<Longrightarrow> indices_in_bounds T V"
  unfolding indices_in_bounds_iff using valid_indices_bounds by blast

text \<open>
  C5, as the code has it. \<^verbatim>\<open>bag_of_words\<close> returns a vector (of length \<open>|V|\<close>) exactly when
  every token of \<open>T\<close> that is a key of \<open>V\<close> is mapped to an integer from \<open>-|V|\<close> to \<open>|V| - 1\<close>.
  Otherwise it raises and returns no vector; the error is an index error when the indices
  of the tokens fit in signed 64-bit integers. Tokens that are not keys of \<open>V\<close> change
  nothing: dropping them from \<open>T\<close> gives the same result. \<^verbatim>\<open>build_vocab\<close> has no operation
  that can raise: it returns a vocabulary for every example list, and on that vocabulary
  \<^verbatim>\<open>bag_of_words\<close> always returns a vector.
\<close>

theorem bag_of_words_total_in_bounds:
  "(indices_in_bounds T V \<longrightarrow>
      (\<exists>bow. bag_of_words T V binary = Inr bow \<and> length bow = len_dict V)) \<and>
   (\<not> indices_in_bounds T V \<longrightarrow> (\<exists>e. bag_of_words T V binary = Inl e)) \<and>
   (\<not> indices_in_bounds T V \<and> indices_fit_int64 T V \<longrightarrow>
      bag_of_words T V binary = Inl IndexError) \<and>
   bag_of_words (filter (\<lambda>w. w |\<in>| fmdom V) T) V binary = bag_of_words T V binary \<and>
   (set_listing list_set \<longrightarrow>
      is_vocabulary (build_vocab list_set examples) \<and>
      (\<exists>bow. bag_of_words T (build_vocab list_set examples) binary = Inr bow \<and>
             length bow = card (corpus_words examples)))"
proof -
  have a: "\<exists>bow. bag_of_words T V binary = Inr bow \<and> length bow = len_dict V"
    if "indices_in_bounds T V" for V
    using that bag_of_words_returns_iff [of T V binary] bag_of_words_length [of T V binary]
    by auto
  have b: "\<exists>e. bag_of_words T V binary = Inl e" if "\<not> indices_in_bounds T V"
    using that bag_of_words_returns_iff [of T V binary]
    by (cases "bag_of_words T V binary") auto
  have b': "bag_of_words T V binary = Inl IndexError"
    if "\<not> indices_in_bounds T V \<and> indices_fit_int64 T V"
    using that b bag_of_words_IndexError [of T V binary] by blast
  have c: "is_vocabulary (build_vocab list_set examples) \<and>
           (\<exists>bow. bag_of_words T (build_vocab list_set examples) binary = Inr bow \<and>
             length bow = card (corpus_words examples))" if l: "set_listing list_set"
  proof -
    have voc: "is_vocabulary (build_vocab list_set examples)"
      using l by (rule build_vocab_is_vocabulary)
    then have "valid_indices (build_vocab list_set examples)"
      by (simp add: is_vocabulary_def)
    then have "indices_in_bounds T (build_vocab list_set examples)"
      by (rule valid_indices_in_bounds)
    then obtain bow where
      "bag_of_words T (build_vocab list_set examples) binary = Inr bow"
      "length bow = len_dict (build_vocab list_set examples)"
      using a by blast
    then show ?thesis using voc build_vocab_len [OF l, of examples] by simp
  qed
  show ?thesis using a b b' c bag_of_words_known by blast
qed

theorem bag_of_words_total_in_bounds_witness:
  "indices_in_bounds [''good'', ''film''] (fmupd ''good'' (- 1) (fmupd ''bad'' 0 fmempty)) \<and>
   bag_of_words [''good'', ''film''] (fmupd ''good'' (- 1) (fmupd ''bad'' 0 fmempty)) False
     = Inr [0, 1] \<and>
   \<not> indices_in_bounds [''good''] (fmupd ''good'' 2 (fmupd ''bad'' 0 fmempty)) \<and>
   indices_fit_int64 [''good''] (fmupd ''good'' 2 (fmupd ''bad'' 0 fmempty)) \<and>
   bag_of_words [''good''] (fmupd ''good'' 2 (fmupd ''bad'' 0 fmempty)) True = Inl IndexError \<and>
   set_listing remdups \<and>
   (\<exists>bow. bag_of_words [''good'', ''film''] (build_vocab remdups [\<lparr>words = [''good''], label = 1\<rparr>])
       False = Inr bow \<and> length bow = card (corpus_words [\<lparr>words = [''good''], label = 1\<rparr>]))"
proof -
  let ?V1 = "fmupd ''good'' (- 1) (fmupd ''bad'' 0 fmempty) :: vocab"
  let ?V2 = "fmupd ''good'' 2 (fmupd ''bad'' 0 fmempty) :: vocab"
  have h1: "indices_in_bounds [''good'', ''film''] ?V1"
    by (simp add: indices_in_bounds_def len_dict_fmupd len_dict_fmempty)
  have h2: "\<not> indices_in_bounds [''good''] ?V2"
    by (simp add: indices_in_bounds_def len_dict_fmupd len_dict_fmempty)
  have h3: "indices_fit_int64 [''good''] ?V2"
    by (simp add: indices_fit_int64_def)
  have e1: "bag_of_words [''good'', ''film''] ?V1 False = Inr [0, 1]"
    by (simp add: bag_of_words_def len_dict_fmupd len_dict_fmempty zeros_def setitem_def
                  Counter_def numeral_2_eq_2 float32_exact)
  have e2: "bag_of_words [''good''] ?V2 True = Inl IndexError"
    using bag_of_words_total_in_bounds [of "[''good'']" ?V2 True] h2 h3 by blast
  have e3: "\<exists>bow. bag_of_words [''good'', ''film'']
                (build_vocab remdups [\<lparr>words = [''good''], label = 1\<rparr>]) False = Inr bow \<and>
              length bow = card (corpus_words [\<lparr>words = [''good''], label = 1\<rparr>])"
    using bag_of_words_total_in_bounds [of _ _ _ remdups] set_listing_remdups by blast
  have "\<exists>bow. bag_of_words [''good'', ''film''] ?V1 False = Inr bow \<and> length bow = len_dict ?V1"
    using bag_of_words_total_in_bounds [of "[''good'', ''film'']" ?V1 False] h1 by blast
  then show ?thesis using h1 h2 h3 e1 e2 e3 set_listing_remdups by blast
qed

text \<open>
  C5 as stated fails: a mapping whose value for a token is not a position of the vector
  makes \<^verbatim>\<open>bag_of_words\<close> raise, in both modes.
\<close>

theorem bag_of_words_any_mapping_counterexample:
  "bag_of_words [''good''] (fmupd ''good'' 5 fmempty) False = Inl IndexError \<and>
   bag_of_words [''good''] (fmupd ''good'' 5 fmempty) True = Inl IndexError"
  by (simp add: bag_of_words_def len_dict_fmupd len_dict_fmempty zeros_def setitem_def
                Counter_def)

section \<open>Lines and fields\<close>

lemma split_nonempty: "split sep s \<noteq> []"
  by (induction s) (auto split: list.splits)

lemma split_no_sep: "sep \<notin> set s \<Longrightarrow> split sep s = [s]"
  by (induction s) auto

lemma split_sep: "sep \<notin> set f \<Longrightarrow> split sep (f @ sep # rest) = f # split sep rest"
  by (induction f) auto

lemma split_length: "length (split sep s) = Suc (count_list s sep)"
  by (induction s) (auto split: list.splits simp: split_nonempty)

lemma split_hd: "split TAB line ! 0 = text_field line"
proof (cases "TAB \<in> set line")
  case False
  then have tw: "takeWhile (\<lambda>c. c \<noteq> TAB) line = line"
    by (auto simp: takeWhile_eq_all_conv)
  show ?thesis by (simp add: split_no_sep [OF False] text_field_def tw)
next
  case True
  then obtain f rest where l: "line = f @ TAB # rest" and f: "TAB \<notin> set f"
    using split_list_first by fast
  have "takeWhile (\<lambda>c. c \<noteq> TAB) (f @ TAB # rest) = f"
    using f by (induction f) auto
  then show ?thesis using l f by (simp add: split_sep text_field_def)
qed

lemma split_second:
  assumes "TAB \<in> set line"
  shows "split TAB line ! 1 = label_field line"
proof -
  obtain f rest where l: "line = f @ TAB # rest" and f: "TAB \<notin> set f"
    using assms split_list_first by fast
  have d: "dropWhile (\<lambda>c. c \<noteq> TAB) (f @ TAB # rest) = TAB # rest"
    using f by (induction f) auto
  have "split TAB rest ! 0 = text_field rest" by (rule split_hd)
  then show ?thesis
    using l f d by (simp add: split_sep label_field_def text_field_def)
qed

lemma py_int_Inl: "py_int s = Inl e \<Longrightarrow> e = ValueError"
  by (auto simp: py_int_def split: list.splits option.splits if_splits)

lemma parse_line_eq:
  "parse_line tokenize line =
     (if malformed line then Inl (line_error line) else Inr (example_of tokenize line))"
proof (cases "TAB \<in> set line")
  case False
  then have "length (split TAB line) = 1" by (simp add: split_no_sep)
  then show ?thesis
    using False
    by (simp add: parse_line_def getitem_def malformed_def line_error_def)
next
  case True
  then have "0 < count_list line TAB" using count_list_0_iff [of line TAB] by auto
  then have len: "1 < length (split TAB line)" by (simp add: split_length)
  have f0: "getitem (split TAB line) 0 = Inr (text_field line)"
    using split_hd [of line] by (simp add: getitem_def split_nonempty)
  have f1: "getitem (split TAB line) (Suc 0) = Inr (label_field line)"
    using len split_second [OF True] by (simp add: getitem_def)
  show ?thesis
  proof (cases "py_int (label_field line)")
    case (Inl e)
    then have "e = ValueError" by (rule py_int_Inl)
    then show ?thesis
      using True Inl
      by (simp add: parse_line_def f0 f1 malformed_def line_error_def)
  next
    case (Inr n)
    then show ?thesis
      using True
      by (simp add: parse_line_def f0 f1 malformed_def example_of_def)
  qed
qed

lemma parse_lines_ok:
  "\<forall>l \<in> set ls. \<not> malformed l \<Longrightarrow> parse_lines tokenize ls = Inr (map (example_of tokenize) ls)"
  by (induction ls) (auto simp: parse_line_eq)

lemma parse_lines_fail:
  "List.find malformed ls = Some l \<Longrightarrow> parse_lines tokenize ls = Inl (line_error l)"
proof (induction ls)
  case Nil
  then show ?case by simp
next
  case (Cons a ls)
  show ?case
  proof (cases "malformed a")
    case True
    then show ?thesis using Cons.prems by (simp add: parse_line_eq)
  next
    case False
    then have "parse_lines tokenize ls = Inl (line_error l)" using Cons by simp
    then show ?thesis using False by (simp add: parse_line_eq)
  qed
qed

lemma find_malformed:
  "l \<in> set ls \<Longrightarrow> malformed l \<Longrightarrow> \<exists>l0. List.find malformed ls = Some l0 \<and> malformed l0 \<and> l0 \<in> set ls"
  by (induction ls) auto

section \<open>Reading the corpus\<close>

lemma split_keepends_no_empty: "[] \<notin> set (split_keepends s)"
  by (induction s) (auto split: list.splits)

lemma readlines_no_empty: "[] \<notin> set (readlines content)"
  by (simp add: readlines_def split_keepends_no_empty)

lemma read_ok:
  "\<forall>l \<in> set (readlines content). \<not> malformed l \<Longrightarrow>
   read_sentiment_examples tokenize content = Inr (map (example_of tokenize) (readlines content))"
  by (simp add: read_sentiment_examples_def parse_lines_ok)

lemma read_fail:
  "List.find malformed (readlines content) = Some l \<Longrightarrow>
   read_sentiment_examples tokenize content = Inl (line_error l)"
  by (simp add: read_sentiment_examples_def parse_lines_fail)

lemma malformed_blank: "malformed [LF]"
  by (simp add: malformed_def)

text \<open>
  C7. When some line of the file is malformed (it has no tab, or \<^verbatim>\<open>int\<close> rejects its label
  field), \<^verbatim>\<open>read_sentiment_examples\<close> raises and returns no list: the error is that of
  the first malformed line, an index error when that line has no tab and a value error
  when its label field is not an integer. No malformed line is skipped.
\<close>

theorem read_fail_fast:
  assumes "l \<in> set (readlines content)" and "malformed l"
  shows "\<exists>l0. List.find malformed (readlines content) = Some l0 \<and>
           read_sentiment_examples tokenize content =
             Inl (if TAB \<notin> set l0 then IndexError else ValueError) \<and>
           (\<forall>exs. read_sentiment_examples tokenize content \<noteq> Inr exs)"
proof -
  obtain l0 where f: "List.find malformed (readlines content) = Some l0"
    using find_malformed [OF assms] by blast
  have "read_sentiment_examples tokenize content = Inl (line_error l0)"
    using f by (rule read_fail)
  then show ?thesis using f by (simp add: line_error_def)
qed


lemmas reader_eval =
  readlines_def py_int_def Let_def int_max_str_digits_def strip_def int_space_def
  is_digit_def digit_val_def malformed_def label_field_def text_field_def example_of_def

theorem read_fail_fast_witness:
  "''bad'' @ [TAB] @ ''x1'' @ [LF] \<in> set (readlines
       (''good'' @ [TAB] @ ''1'' @ [LF] @ ''bad'' @ [TAB] @ ''x1'' @ [LF] @ ''fine'' @ [LF])) \<and>
   malformed (''bad'' @ [TAB] @ ''x1'' @ [LF]) \<and>
   read_sentiment_examples (split (CHR '' ''))
       (''good'' @ [TAB] @ ''1'' @ [LF] @ ''bad'' @ [TAB] @ ''x1'' @ [LF] @ ''fine'' @ [LF])
     = Inl ValueError"
proof -
  let ?C = "''good'' @ [TAB] @ ''1'' @ [LF] @ ''bad'' @ [TAB] @ ''x1'' @ [LF] @ ''fine'' @ [LF]"
  let ?l = "''bad'' @ [TAB] @ ''x1'' @ [LF]"
  have rl: "readlines ?C = [''good'' @ [TAB] @ ''1'' @ [LF], ?l, ''fine'' @ [LF]]"
    by (simp add: readlines_def)
  have m0: "\<not> malformed (''good'' @ [TAB] @ ''1'' @ [LF])" by (simp add: reader_eval)
  have m: "malformed ?l" by (simp add: reader_eval)
  have i: "?l \<in> set (readlines ?C)" unfolding rl by simp
  have f: "List.find malformed (readlines ?C) = Some ?l"
    unfolding rl using m0 m by simp
  obtain l0 where "List.find malformed (readlines ?C) = Some l0"
    "read_sentiment_examples (split (CHR '' '')) ?C
       = Inl (if TAB \<notin> set l0 then IndexError else ValueError)"
    using read_fail_fast [OF i m, of "split (CHR '' '')"] by blast
  then have "read_sentiment_examples (split (CHR '' '')) ?C = Inl ValueError"
    using f by simp
  then show ?thesis using i m by blast
qed

text \<open>
  C6, as the code has it. \<^verbatim>\<open>read_sentiment_examples\<close> processes every line of the file;
  no line is skipped. A line is never the empty string (an empty line of the file is
  the line \<^verbatim>\<open>\n\<close>). When no line is malformed, each line gives one example, from its
  text field and its label field. An empty line has no tab: it makes the call fail, and
  with an index error when it is the first malformed line.
\<close>

theorem read_processes_every_line:
  "[] \<notin> set (readlines content) \<and>
   ((\<forall>l \<in> set (readlines content). \<not> malformed l) \<longrightarrow>
      read_sentiment_examples tokenize content =
        Inr (map (example_of tokenize) (readlines content))) \<and>
   ([LF] \<in> set (readlines content) \<longrightarrow>
      (\<exists>e. read_sentiment_examples tokenize content = Inl e)) \<and>
   (List.find malformed (readlines content) = Some [LF] \<longrightarrow>
      read_sentiment_examples tokenize content = Inl IndexError)"
proof -
  have a: "\<exists>e. read_sentiment_examples tokenize content = Inl e"
    if blank: "[LF] \<in> set (readlines content)"
  proof -
    obtain l0 where "List.find malformed (readlines content) = Some l0"
      using find_malformed [OF blank malformed_blank] by blast
    then show ?thesis using read_fail by blast
  qed
  have b: "read_sentiment_examples tokenize content = Inl IndexError"
    if "List.find malformed (readlines content) = Some [LF]"
    using read_fail [OF that, of tokenize] by (simp add: line_error_def)
  show ?thesis using readlines_no_empty read_ok a b by blast
qed

theorem read_processes_every_line_witness:
  "list_all (\<lambda>l. \<not> malformed l)
      (readlines (''good movie'' @ [TAB] @ ''1'' @ [LF] @ ''bad movie'' @ [TAB] @ ''0'' @ [LF])) \<and>
   read_sentiment_examples (split (CHR '' ''))
       (''good movie'' @ [TAB] @ ''1'' @ [LF] @ ''bad movie'' @ [TAB] @ ''0'' @ [LF])
     = Inr [\<lparr>words = [''good'', ''movie''], label = 1\<rparr>, \<lparr>words = [''bad'', ''movie''], label = 0\<rparr>] \<and>
   [LF] \<in> set (readlines (''good'' @ [TAB] @ ''1'' @ [LF] @ [LF])) \<and>
   List.find malformed (readlines (''good'' @ [TAB] @ ''1'' @ [LF] @ [LF])) = Some [LF] \<and>
   read_sentiment_examples (split (CHR '' '')) (''good'' @ [TAB] @ ''1'' @ [LF] @ [LF])
     = Inl IndexError"
proof -
  let ?C = "''good movie'' @ [TAB] @ ''1'' @ [LF] @ ''bad movie'' @ [TAB] @ ''0'' @ [LF]"
  let ?D = "''good'' @ [TAB] @ ''1'' @ [LF] @ [LF]"
  have rc: "readlines ?C = [''good movie'' @ [TAB] @ ''1'' @ [LF], ''bad movie'' @ [TAB] @ ''0'' @ [LF]]"
    by (simp add: readlines_def)
  have rd: "readlines ?D = [''good'' @ [TAB] @ ''1'' @ [LF], [LF]]"
    by (simp add: readlines_def)
  have m1: "\<not> malformed (''good movie'' @ [TAB] @ ''1'' @ [LF])" by (simp add: reader_eval)
  have m2: "\<not> malformed (''bad movie'' @ [TAB] @ ''0'' @ [LF])" by (simp add: reader_eval)
  have m3: "\<not> malformed (''good'' @ [TAB] @ ''1'' @ [LF])" by (simp add: reader_eval)
  have h1: "\<forall>l \<in> set (readlines ?C). \<not> malformed l" unfolding rc using m1 m2 by simp
  have h2: "[LF] \<in> set (readlines ?D)" unfolding rd by simp
  have h3: "List.find malformed (readlines ?D) = Some [LF]"
    unfolding rd using m3 malformed_blank by simp
  have e1: "example_of (split (CHR '' '')) (''good movie'' @ [TAB] @ ''1'' @ [LF])
              = \<lparr>words = [''good'', ''movie''], label = 1\<rparr>"
    by (simp add: reader_eval)
  have e2: "example_of (split (CHR '' '')) (''bad movie'' @ [TAB] @ ''0'' @ [LF])
              = \<lparr>words = [''bad'', ''movie''], label = 0\<rparr>"
    by (simp add: reader_eval)
  have "read_sentiment_examples (split (CHR '' '')) ?C
          = Inr (map (example_of (split (CHR '' ''))) (readlines ?C))"
    using read_processes_every_line [of ?C "split (CHR '' '')"] h1 by blast
  then have r1: "read_sentiment_examples (split (CHR '' '')) ?C
          = Inr [\<lparr>words = [''good'', ''movie''], label = 1\<rparr>, \<lparr>words = [''bad'', ''movie''], label = 0\<rparr>]"
    unfolding rc using e1 e2 by simp
  have r2: "read_sentiment_examples (split (CHR '' '')) ?D = Inl IndexError"
    using read_processes_every_line [of ?D "split (CHR '' '')"] h3 by blast
  have "list_all (\<lambda>l. \<not> malformed l) (readlines ?C)"
    using h1 by (simp add: list_all_iff)
  then show ?thesis using r1 h2 h3 r2 by blast
qed

text \<open>
  C6 as stated fails: an empty line between two well-formed lines produces an error,
  not a list without it.
\<close>

theorem read_empty_line_counterexample:
  "read_sentiment_examples (split (CHR '' ''))
     (''good movie'' @ [TAB] @ ''1'' @ [LF] @ [LF] @ ''bad movie'' @ [TAB] @ ''0'' @ [LF])
   = Inl IndexError"
proof -
  let ?C = "''good movie'' @ [TAB] @ ''1'' @ [LF] @ [LF] @ ''bad movie'' @ [TAB] @ ''0'' @ [LF]"
  have rc: "readlines ?C = [''good movie'' @ [TAB] @ ''1'' @ [LF], [LF],
                            ''bad movie'' @ [TAB] @ ''0'' @ [LF]]"
    by (simp add: readlines_def)
  have m1: "\<not> malformed (''good movie'' @ [TAB] @ ''1'' @ [LF])" by (simp add: reader_eval)
  have "List.find malformed (readlines ?C) = Some [LF]"
    unfolding rc using m1 malformed_blank by simp
  then show ?thesis using read_fail [of ?C "[LF]"] by (simp add: line_error_def)
qed

section \<open>Well-formed files\<close>

lemma int_digits_all:
  "list_all is_digit ds \<Longrightarrow>
   int_digits acc ld ds =
     (if ds = [] then (if ld then Some acc else None)
      else Some (foldl (\<lambda>a c. 10 * a + digit_val c) acc ds))"
  by (induction ds arbitrary: acc ld) auto

lemma digit_not_space: "is_digit c \<Longrightarrow> \<not> int_space c"
  by (auto simp: is_digit_def int_space_def)

lemma digit_not_sep: "is_digit c \<Longrightarrow> c \<noteq> TAB \<and> c \<noteq> LF \<and> c \<noteq> CR \<and> c \<noteq> CHR ''-'' \<and> c \<noteq> CHR ''+''"
  by (auto simp: is_digit_def)

lemma strip_no_space: "\<forall>c \<in> set s. \<not> int_space c \<Longrightarrow> strip s = s"
proof -
  assume a: "\<forall>c \<in> set s. \<not> int_space c"
  have d: "dropWhile int_space xs = xs" if "\<forall>c \<in> set xs. \<not> int_space c" for xs
    using that by (cases xs) auto
  have "dropWhile int_space s = s" using a by (rule d)
  moreover have "dropWhile int_space (rev s) = rev s" using a by (intro d) simp
  ultimately show ?thesis by (simp add: strip_def)
qed

lemma strip_trailing: "int_space c \<Longrightarrow> strip (s @ [c]) = strip s"
proof (cases "\<forall>x \<in> set s. int_space x")
  case True
  assume "int_space c"
  then have "dropWhile int_space (s @ [c]) = []" "dropWhile int_space s = []"
    unfolding dropWhile_eq_Nil_conv using True by auto
  then show ?thesis by (simp only: strip_def rev.simps dropWhile.simps)
next
  case False
  assume c: "int_space c"
  obtain x where "x \<in> set s" "\<not> int_space x" using False by blast
  then have "dropWhile int_space (s @ [c]) = dropWhile int_space s @ [c]"
    by (rule dropWhile_append1)
  then show ?thesis using c by (simp add: strip_def)
qed

lemma py_int_trailing: "int_space c \<Longrightarrow> py_int (s @ [c]) = py_int s"
  by (simp add: py_int_def strip_trailing)

lemma decimal_chars:
  assumes "is_decimal l" and "c \<in> set l"
  shows "c = CHR ''-'' \<or> c = CHR ''+'' \<or> is_digit c"
  using assms
  by (cases l) (auto simp: is_decimal_def digits_of_def list_all_iff split: if_splits)

lemma decimal_plain: "is_decimal l \<Longrightarrow> plain_field l"
  unfolding plain_field_def using decimal_chars [of l] digit_not_sep by fastforce

lemma decimal_no_space: "is_decimal l \<Longrightarrow> \<forall>c \<in> set l. \<not> int_space c"
proof
  fix c assume "is_decimal l" "c \<in> set l"
  then have "c = CHR ''-'' \<or> c = CHR ''+'' \<or> is_digit c" by (rule decimal_chars)
  then show "\<not> int_space c" using digit_not_space by (auto simp: int_space_def)
qed

lemma py_int_decimal:
  assumes "is_decimal l"
  shows "py_int l =
           (if length (digits_of l) \<le> int_max_str_digits then Inr (decimal_value l)
            else Inl ValueError)"
proof -
  have s: "strip l = l" using decimal_no_space [OF assms] by (rule strip_no_space)
  obtain c cs where l: "l = c # cs"
    using assms by (cases l) (auto simp: is_decimal_def digits_of_def)
  have s': "strip (c # cs) = c # cs" using s l by simp
  let ?body = "if c = CHR ''-'' \<or> c = CHR ''+'' then cs else c # cs"
  have d: "digits_of l = ?body" using l by (simp add: digits_of_def)
  have body: "?body \<noteq> []" "list_all is_digit ?body"
    using assms d by (simp_all add: is_decimal_def)
  have i: "int_digits 0 False ?body = Some (foldl (\<lambda>a c. 10 * a + digit_val c) 0 ?body)"
    using body int_digits_all [of ?body 0 False] by simp
  have f: "filter is_digit ?body = ?body"
    using body(2) by (simp add: list_all_iff)
  have v: "decimal_value l
             = (if c = CHR ''-'' then - foldl (\<lambda>a c. 10 * a + digit_val c) 0 ?body
                else foldl (\<lambda>a c. 10 * a + digit_val c) 0 ?body)"
    unfolding decimal_value_def d using l by simp
  have "py_int l =
          (if int_max_str_digits < length ?body then Inl ValueError
           else Inr (if c = CHR ''-'' then - foldl (\<lambda>a c. 10 * a + digit_val c) 0 ?body
                     else foldl (\<lambda>a c. 10 * a + digit_val c) 0 ?body))"
    unfolding py_int_def l s' by (simp only: list.case Let_def i f option.case)
  then show ?thesis unfolding d v by (simp add: not_le [symmetric])
qed

lemma py_int_label: "is_label l \<Longrightarrow> py_int l = Inr (decimal_value l)"
  by (simp add: is_label_def py_int_decimal)

lemma universal_newlines_prefix:
  "CR \<notin> set s \<Longrightarrow> universal_newlines (s @ r) = s @ universal_newlines r"
  by (induction s) auto

lemma universal_newlines_line_end:
  assumes "line_end e" and "rest = [] \<or> hd rest \<noteq> LF"
  shows "universal_newlines (e @ rest) = LF # universal_newlines rest"
proof (cases "e = [CR]")
  case True
  then show ?thesis using assms(2) by (cases rest) auto
next
  case False
  then show ?thesis using assms(1) by (auto simp: line_end_def)
qed

lemma split_keepends_line:
  "LF \<notin> set s \<Longrightarrow> split_keepends (s @ LF # rest) = (s @ [LF]) # split_keepends rest"
  by (induction s) auto

lemma split_keepends_Nil: "split_keepends s = [] \<longleftrightarrow> s = []"
  by (cases s) (auto split: list.splits)

lemma split_keepends_last: "LF \<notin> set s \<Longrightarrow> s \<noteq> [] \<Longrightarrow> split_keepends s = [s]"
proof (induction s)
  case Nil
  then show ?case by simp
next
  case (Cons a s)
  show ?case
  proof (cases "s = []")
    case True
    then show ?thesis using Cons.prems by simp
  next
    case False
    then have "split_keepends s = [s]" using Cons by simp
    then show ?thesis using Cons.prems by auto
  qed
qed

lemma readlines_line:
  assumes "CR \<notin> set s" and "LF \<notin> set s" and "line_end e"
    and "rest = [] \<or> hd rest \<noteq> LF"
  shows "readlines (s @ e @ rest) = (s @ [LF]) # readlines rest"
proof -
  have "universal_newlines (s @ e @ rest) = s @ LF # universal_newlines rest"
    using universal_newlines_prefix [OF assms(1), of "e @ rest"]
      universal_newlines_line_end [OF assms(3,4)]
    by simp
  then show ?thesis
    using split_keepends_line [OF assms(2)] by (simp add: readlines_def)
qed

lemma readlines_last:
  assumes "CR \<notin> set s" and "LF \<notin> set s" and "s \<noteq> []"
  shows "readlines s = [s]"
proof -
  have "universal_newlines s = s"
    using universal_newlines_prefix [OF assms(1), of "[]"] by simp
  then show ?thesis using split_keepends_last [OF assms(2,3)] by (simp add: readlines_def)
qed

lemma fields_of_line:
  assumes "TAB \<notin> set t" and "TAB \<notin> set l"
  shows "text_field (t @ TAB # l) = t" and "label_field (t @ TAB # l) = l"
proof -
  have tw: "takeWhile (\<lambda>c. c \<noteq> TAB) (t @ TAB # l) = t"
    using assms(1) by (induction t) auto
  have dw: "dropWhile (\<lambda>c. c \<noteq> TAB) (t @ TAB # l) = TAB # l"
    using assms(1) by (induction t) auto
  have tl: "takeWhile (\<lambda>c. c \<noteq> TAB) l = l"
    using assms(2) by (auto simp: takeWhile_eq_all_conv)
  show "text_field (t @ TAB # l) = t" by (simp add: text_field_def tw)
  show "label_field (t @ TAB # l) = l" by (simp add: label_field_def dw tl)
qed

text \<open>A line as \<^verbatim>\<open>readlines\<close> returns it: the line end is \<^verbatim>\<open>\n\<close>, or missing on the last line.\<close>

lemma well_formed_line:
  assumes "plain_field t" and "is_label l" and "e = [] \<or> e = [LF]"
  shows "\<not> malformed (t @ TAB # l @ e)"
    and "example_of tokenize (t @ TAB # l @ e) = \<lparr>words = tokenize t, label = decimal_value l\<rparr>"
proof -
  have dec: "is_decimal l" using assms(2) by (simp add: is_label_def)
  have t: "TAB \<notin> set t" using assms(1) by (simp add: plain_field_def)
  have l: "TAB \<notin> set (l @ e)"
    using decimal_plain [OF dec] assms(3) by (auto simp: plain_field_def)
  have p: "py_int (l @ e) = Inr (decimal_value l)"
    using assms(3) py_int_label [OF assms(2)] py_int_trailing [of LF l]
    by (auto simp: int_space_def)
  show "\<not> malformed (t @ TAB # l @ e)"
    using fields_of_line(2) [OF t l] p by (simp add: malformed_def)
  show "example_of tokenize (t @ TAB # l @ e) = \<lparr>words = tokenize t, label = decimal_value l\<rparr>"
    using fields_of_line [OF t l] p by (simp add: example_of_def)
qed

lemma corpus_text_Cons:
  "corpus_text ((t, l, e) # rows) = (t @ TAB # l) @ e @ corpus_text rows"
  by (simp add: corpus_text_def)

lemma corpus_text_hd:
  "well_formed_rows rows \<Longrightarrow> corpus_text rows = [] \<or> hd (corpus_text rows) \<noteq> LF"
proof (cases rows)
  case Nil
  then show ?thesis by (simp add: corpus_text_def)
next
  case (Cons row rest)
  assume wf: "well_formed_rows rows"
  obtain t l e where row: "row = (t, l, e)" by (cases row) auto
  have "plain_field t" using wf Cons row by (cases rest) auto
  then have a: "hd (t @ [TAB]) \<noteq> LF" by (cases t) (auto simp: plain_field_def)
  have b: "corpus_text rows = (t @ [TAB]) @ (l @ e @ corpus_text rest)"
    using Cons row by (simp add: corpus_text_def)
  have "hd (corpus_text rows) = hd (t @ [TAB])"
    unfolding b by (rule hd_append2) simp
  then have "hd (corpus_text rows) \<noteq> LF" using a by (simp only: not_False_eq_True)
  then show ?thesis by (rule disjI2)
qed

subsection \<open>Reading a well-formed file\<close>

lemma corpus_text_read:
  "well_formed_rows rows \<Longrightarrow>
   read_sentiment_examples tokenize (corpus_text rows) =
     Inr (map (\<lambda>(t, l, e). \<lparr>words = tokenize t, label = decimal_value l\<rparr>) rows)"
proof (induction rows rule: well_formed_rows.induct)
  case 1
  then show ?case
    by (simp add: corpus_text_def read_sentiment_examples_def readlines_def)
next
  case (2 t l e)
  then have p: "plain_field t" "is_label l" and e: "e = [] \<or> line_end e" by simp_all
  have dec: "is_decimal l" using p(2) by (simp add: is_label_def)
  let ?s = "t @ TAB # l"
  have s: "CR \<notin> set ?s" "LF \<notin> set ?s" "?s \<noteq> []"
    using p(1) decimal_plain [OF dec] by (auto simp: plain_field_def)
  show ?case
  proof (cases "e = []")
    case True
    have rl: "readlines (corpus_text [(t, l, e)]) = [?s @ []]"
      using readlines_last [OF s] True by (simp add: corpus_text_def)
    have "parse_lines tokenize [?s @ []]
            = Inr [\<lparr>words = tokenize t, label = decimal_value l\<rparr>]"
      using well_formed_line(1) [OF p, of "[]"] well_formed_line(2) [OF p, of "[]" tokenize]
      by (simp add: parse_line_eq)
    then show ?thesis by (simp add: read_sentiment_examples_def rl)
  next
    case False
    then have le: "line_end e" using e by simp
    have "readlines (?s @ e @ []) = (?s @ [LF]) # readlines []"
      using s(1,2) le by (rule readlines_line) simp
    then have rl: "readlines (corpus_text [(t, l, e)]) = [?s @ [LF]]"
      by (simp add: corpus_text_def readlines_def)
    have "parse_lines tokenize [?s @ [LF]]
            = Inr [\<lparr>words = tokenize t, label = decimal_value l\<rparr>]"
      using well_formed_line(1) [OF p, of "[LF]"] well_formed_line(2) [OF p, of "[LF]" tokenize]
      by (simp add: parse_line_eq)
    then show ?thesis by (simp add: read_sentiment_examples_def rl)
  qed
next
  case (3 t l e r rows)
  then have p: "plain_field t" "is_label l" and le: "line_end e"
    and wf: "well_formed_rows (r # rows)" by simp_all
  have dec: "is_decimal l" using p(2) by (simp add: is_label_def)
  let ?s = "t @ TAB # l"
  have s: "CR \<notin> set ?s" "LF \<notin> set ?s"
    using p(1) decimal_plain [OF dec] by (auto simp: plain_field_def)
  have "readlines (?s @ e @ corpus_text (r # rows))
          = (?s @ [LF]) # readlines (corpus_text (r # rows))"
    using s le corpus_text_hd [OF wf] by (rule readlines_line)
  then have rl: "readlines (corpus_text ((t, l, e) # r # rows))
          = (?s @ [LF]) # readlines (corpus_text (r # rows))"
    by (simp only: corpus_text_Cons)
  have ih: "parse_lines tokenize (readlines (corpus_text (r # rows)))
          = Inr (map (\<lambda>(t, l, e). \<lparr>words = tokenize t, label = decimal_value l\<rparr>) (r # rows))"
    using 3 wf by (simp add: read_sentiment_examples_def)
  have "parse_line tokenize (?s @ [LF]) = Inr \<lparr>words = tokenize t, label = decimal_value l\<rparr>"
    using well_formed_line(1) [OF p, of "[LF]"] well_formed_line(2) [OF p, of "[LF]" tokenize]
    by (simp add: parse_line_eq)
  then show ?case
    unfolding read_sentiment_examples_def rl using ih by simp
qed

text \<open>
  C4, as the code has it. For a well-formed file of \<open>N\<close> lines (each a text field without
  tab or line break, one tab, a decimal integer label of at most 4300 digits and a line
  end, which the last line may lack), \<^verbatim>\<open>read_sentiment_examples\<close> returns exactly \<open>N\<close>
  examples in the order of the lines; the tokens of each are the tokenizer applied to
  the text field of its line and its label is the integer value of the label field.
\<close>

theorem read_well_formed_file:
  assumes "well_formed_rows rows"
  shows "\<exists>exs. read_sentiment_examples tokenize (corpus_text rows) = Inr exs \<and>
           length exs = length rows \<and>
           (\<forall>k < length rows.
              words (exs ! k) = tokenize (fst (rows ! k)) \<and>
              label (exs ! k) = decimal_value (fst (snd (rows ! k))))"
proof -
  let ?exs = "map (\<lambda>(t, l, e). \<lparr>words = tokenize t, label = decimal_value l\<rparr>) rows"
  have "read_sentiment_examples tokenize (corpus_text rows) = Inr ?exs"
    using assms by (rule corpus_text_read)
  moreover have "length ?exs = length rows" by simp
  moreover have "\<forall>k < length rows.
              words (?exs ! k) = tokenize (fst (rows ! k)) \<and>
              label (?exs ! k) = decimal_value (fst (snd (rows ! k)))"
    by (simp add: split_beta)
  ultimately show ?thesis by blast
qed

theorem read_well_formed_file_witness:
  "well_formed_rows [(''good movie'', ''1'', [CR, LF]), (''bad movie'', ''-12'', [])] \<and>
   corpus_text [(''good movie'', ''1'', [CR, LF]), (''bad movie'', ''-12'', [])]
     = ''good movie'' @ [TAB] @ ''1'' @ [CR, LF] @ ''bad movie'' @ [TAB] @ ''-12'' \<and>
   (\<exists>exs. read_sentiment_examples (split (CHR '' ''))
             (corpus_text [(''good movie'', ''1'', [CR, LF]), (''bad movie'', ''-12'', [])])
           = Inr exs \<and>
      exs = [\<lparr>words = [''good'', ''movie''], label = 1\<rparr>,
             \<lparr>words = [''bad'', ''movie''], label = - 12\<rparr>])"
proof -
  let ?rows = "[(''good movie'', ''1'', [CR, LF]), (''bad movie'', ''-12'', [])]"
  have h: "well_formed_rows ?rows"
    by (simp add: plain_field_def is_label_def is_decimal_def digits_of_def is_digit_def
                  line_end_def int_max_str_digits_def)
  have c: "corpus_text ?rows
             = ''good movie'' @ [TAB] @ ''1'' @ [CR, LF] @ ''bad movie'' @ [TAB] @ ''-12''"
    by (simp add: corpus_text_def)
  obtain exs where e: "read_sentiment_examples (split (CHR '' '')) (corpus_text ?rows) = Inr exs"
    using read_well_formed_file [OF h, of "split (CHR '' '')"] by blast
  have r: "read_sentiment_examples (split (CHR '' '')) (corpus_text ?rows)
             = Inr [\<lparr>words = [''good'', ''movie''], label = 1\<rparr>,
                    \<lparr>words = [''bad'', ''movie''], label = - 12\<rparr>]"
    by (simp add: corpus_text_def read_sentiment_examples_def readlines_def parse_line_def
                  getitem_def py_int_def Let_def int_max_str_digits_def strip_def
                  int_space_def is_digit_def digit_val_def)
  show ?thesis using h c e r by simp
qed

text \<open>
  C4 as stated fails: \<^verbatim>\<open>int\<close> converts at most 4300 digits. A file of one line whose label
  is a decimal integer of 4301 digits is well-formed in the sense of the claim, and the
  call raises a value error.
\<close>

theorem read_long_label_counterexample:
  "plain_field ''good'' \<and> is_decimal (replicate 4301 (CHR ''1'')) \<and>
   read_sentiment_examples (split (CHR '' ''))
      (''good'' @ [TAB] @ replicate 4301 (CHR ''1'') @ [LF]) = Inl ValueError"
proof -
  let ?l = "replicate 4301 (CHR ''1'')"
  let ?line = "''good'' @ TAB # ?l @ [LF]"
  obtain m :: nat where m: "4301 = Suc m" by (metis numeral_eq_Suc)
  have p: "plain_field ''good''" by (simp add: plain_field_def)
  have one: "is_digit (CHR ''1'')" by (simp add: is_digit_def)
  have dg: "digits_of ?l = ?l"
    unfolding m using digit_not_sep [OF one] by (simp add: digits_of_def)
  have dec: "is_decimal ?l"
    unfolding is_decimal_def dg using one by (simp add: list_all_iff)
  have "py_int ?l = Inl ValueError"
    using py_int_decimal [OF dec] by (simp add: dg int_max_str_digits_def)
  then have pi: "py_int (?l @ [LF]) = Inl ValueError"
    using py_int_trailing [of LF ?l] by (simp add: int_space_def)
  have pl: "plain_field ?l" using dec by (rule decimal_plain)
  have t: "TAB \<notin> set ''good''" by simp
  have tl: "TAB \<notin> set (?l @ [LF])" using pl by (simp add: plain_field_def)
  have "label_field (''good'' @ TAB # ?l @ [LF]) = ?l @ [LF]"
    using t tl by (rule fields_of_line(2))
  then have mal: "malformed ?line" "line_error ?line = ValueError"
    using pi by (simp_all add: malformed_def line_error_def)
  have s: "CR \<notin> set (''good'' @ TAB # ?l)" "LF \<notin> set (''good'' @ TAB # ?l)"
    using pl by (simp_all add: plain_field_def)
  have "readlines ((''good'' @ TAB # ?l) @ [LF] @ []) = ((''good'' @ TAB # ?l) @ [LF]) # readlines []"
    using s by (rule readlines_line) (simp_all add: line_end_def)
  then have rl: "readlines (''good'' @ [TAB] @ ?l @ [LF]) = [?line]"
    by (simp add: readlines_def)
  have "parse_lines (split (CHR '' '')) [?line] = Inl ValueError"
    using mal by (simp add: parse_line_eq)
  then have "read_sentiment_examples (split (CHR '' '')) (''good'' @ [TAB] @ ?l @ [LF])
               = Inl ValueError"
    unfolding read_sentiment_examples_def rl .
  then show ?thesis using p dec by blast
qed

section \<open>Lines with more than two fields\<close>

lemma two_tabs_split:
  assumes "2 \<le> count_list l TAB"
  shows "\<exists>f0 f1 rest. l = f0 @ TAB # f1 @ TAB # rest \<and> TAB \<notin> set f0 \<and> TAB \<notin> set f1"
proof -
  have "TAB \<in> set l" using assms count_list_0_iff [of l TAB] by auto
  then obtain f0 r where l: "l = f0 @ TAB # r" and f0: "TAB \<notin> set f0"
    using split_list_first by fast
  have "count_list l TAB = Suc (count_list r TAB)" using l f0 by simp
  then have "TAB \<in> set r" using assms count_list_0_iff [of r TAB] by auto
  then obtain f1 rest where r: "r = f1 @ TAB # rest" and f1: "TAB \<notin> set f1"
    using split_list_first by fast
  show ?thesis using l r f0 f1 by blast
qed

lemma fields_of_two_tabs:
  assumes "TAB \<notin> set f0" and "TAB \<notin> set f1"
  shows "text_field (f0 @ TAB # f1 @ TAB # rest) = f0"
    and "label_field (f0 @ TAB # f1 @ TAB # rest) = f1"
proof -
  have tw: "takeWhile (\<lambda>c. c \<noteq> TAB) (f0 @ TAB # f1 @ TAB # rest) = f0"
    using assms(1) by (induction f0) auto
  have dw: "dropWhile (\<lambda>c. c \<noteq> TAB) (f0 @ TAB # f1 @ TAB # rest) = TAB # f1 @ TAB # rest"
    using assms(1) by (induction f0) auto
  have t1: "takeWhile (\<lambda>c. c \<noteq> TAB) (f1 @ TAB # rest) = f1"
    using assms(2) by (induction f1) auto
  show "text_field (f0 @ TAB # f1 @ TAB # rest) = f0" by (simp add: text_field_def tw)
  show "label_field (f0 @ TAB # f1 @ TAB # rest) = f1" by (simp add: label_field_def dw t1)
qed

text \<open>
  C9. A line with two or more tabs whose second field \<^verbatim>\<open>int\<close> accepts is taken without
  error: the line is \<open>f0 \t f1 \t rest\<close> with no tab in \<open>f0\<close> and \<open>f1\<close>, its example has the
  tokens of \<open>f0\<close> (the part before the first tab) and the integer value of \<open>f1\<close>, and
  \<open>rest\<close>, the fields after the second, plays no part. In a file whose other lines are
  not malformed the call returns one example per line, this one at the line's position.
\<close>

theorem read_ignores_extra_fields:
  assumes "2 \<le> count_list l TAB" and "py_int (label_field l) = Inr n"
    and "readlines content = before @ l # after"
    and "\<forall>l' \<in> set before \<union> set after. \<not> malformed l'"
  shows "\<exists>f0 f1 rest. l = f0 @ TAB # f1 @ TAB # rest \<and> TAB \<notin> set f0 \<and> TAB \<notin> set f1 \<and>
           py_int f1 = Inr n \<and>
           parse_line tokenize l = Inr \<lparr>words = tokenize f0, label = n\<rparr> \<and>
           (\<exists>exs. read_sentiment_examples tokenize content = Inr exs \<and>
                  length exs = length (readlines content) \<and>
                  exs ! length before = \<lparr>words = tokenize f0, label = n\<rparr>)"
proof -
  obtain f0 f1 rest where l: "l = f0 @ TAB # f1 @ TAB # rest"
    and f: "TAB \<notin> set f0" "TAB \<notin> set f1"
    using two_tabs_split [OF assms(1)] by blast
  have tf: "text_field l = f0" and lf: "label_field l = f1"
    using fields_of_two_tabs [OF f, of rest] l by simp_all
  have p: "py_int f1 = Inr n" using assms(2) lf by simp
  have nm: "\<not> malformed l" using l assms(2) by (simp add: malformed_def)
  have ex: "example_of tokenize l = \<lparr>words = tokenize f0, label = n\<rparr>"
    using tf assms(2) by (simp add: example_of_def)
  have pl: "parse_line tokenize l = Inr \<lparr>words = tokenize f0, label = n\<rparr>"
    using nm ex by (simp add: parse_line_eq)
  have ok: "\<forall>l' \<in> set (readlines content). \<not> malformed l'"
    using assms(3,4) nm by auto
  let ?exs = "map (example_of tokenize) (readlines content)"
  have r: "read_sentiment_examples tokenize content = Inr ?exs"
    using ok by (rule read_ok)
  have "?exs ! length before = example_of tokenize l"
    using assms(3) by (simp add: nth_append)
  then have "?exs ! length before = \<lparr>words = tokenize f0, label = n\<rparr>"
    using ex by simp
  moreover have "length ?exs = length (readlines content)" by simp
  ultimately show ?thesis using l f p pl r by blast
qed

theorem read_ignores_extra_fields_witness:
  "2 \<le> count_list (''bad movie'' @ [TAB] @ ''0'' @ [TAB] @ ''extra'' @ [TAB] @ ''more'' @ [LF]) TAB \<and>
   py_int (label_field (''bad movie'' @ [TAB] @ ''0'' @ [TAB] @ ''extra'' @ [TAB] @ ''more'' @ [LF]))
     = Inr 0 \<and>
   read_sentiment_examples (split (CHR '' ''))
     (''good'' @ [TAB] @ ''1'' @ [LF] @
      ''bad movie'' @ [TAB] @ ''0'' @ [TAB] @ ''extra'' @ [TAB] @ ''more'' @ [LF])
     = Inr [\<lparr>words = [''good''], label = 1\<rparr>, \<lparr>words = [''bad'', ''movie''], label = 0\<rparr>]"
proof -
  let ?l = "''bad movie'' @ [TAB] @ ''0'' @ [TAB] @ ''extra'' @ [TAB] @ ''more'' @ [LF]"
  let ?g = "''good'' @ [TAB] @ ''1'' @ [LF]"
  let ?C = "?g @ ?l"
  have h1: "2 \<le> count_list ?l TAB" by simp
  have h2: "py_int (label_field ?l) = Inr 0" by (simp add: reader_eval)
  have h3: "readlines ?C = [?g] @ ?l # []" by (simp add: readlines_def)
  have h4: "\<forall>l' \<in> set [?g] \<union> set []. \<not> malformed l'" by (simp add: reader_eval)
  obtain f0 f1 rest exs where w: "?l = f0 @ TAB # f1 @ TAB # rest"
    "read_sentiment_examples (split (CHR '' '')) ?C = Inr exs"
    using read_ignores_extra_fields [OF h1 h2 h3 h4, of "split (CHR '' '')"] by blast
  have "read_sentiment_examples (split (CHR '' '')) ?C
          = Inr [\<lparr>words = [''good''], label = 1\<rparr>, \<lparr>words = [''bad'', ''movie''], label = 0\<rparr>]"
    by (simp add: read_sentiment_examples_def readlines_def parse_line_def getitem_def
                  py_int_def Let_def int_max_str_digits_def strip_def int_space_def
                  is_digit_def digit_val_def)
  then show ?thesis using h1 h2 w(2) by simp
qed

end
